theory Spec2Isabelle
  imports Complex_Main
begin

section \<open>JavaScript values and node records\<close>

text \<open>
  The tree view of \<^verbatim>\<open>src/index.js\<close> works on plain JavaScript records. A record is an
  object: a reference (its identity, compared by \<^verbatim>\<open>===\<close> and used as a \<^verbatim>\<open>Map\<close> key) and
  its own properties in enumeration order. A property value is a primitive or an array of
  records (the \<^verbatim>\<open>children\<close> array). Strings are sequences of code units below 256, numbers are
  the integers that JavaScript prints in plain decimal.
\<close>

datatype jsval = JUndefined | JNull | JBool bool | JNum int | JStr string | JArr "node list"
and node = Node (addr: nat) (props: "(string \<times> jsval) list")

text \<open>Truthiness, as tested by \<^verbatim>\<open>!x\<close>, \<^verbatim>\<open>x || y\<close> and \<^verbatim>\<open>x && y\<close>.\<close>

fun truthy :: "jsval \<Rightarrow> bool" where
  "truthy JUndefined = False"
| "truthy JNull = False"
| "truthy (JBool b) = b"
| "truthy (JNum i) = (i \<noteq> 0)"
| "truthy (JStr s) = (s \<noteq> [])"
| "truthy (JArr ns) = True"

text \<open>Reading a property: \<^verbatim>\<open>node[k]\<close> is \<^verbatim>\<open>undefined\<close> when the record has no such property.\<close>

definition getProp :: "node \<Rightarrow> string \<Rightarrow> jsval" where
  "getProp n k = (case map_of (props n) k of None \<Rightarrow> JUndefined | Some v \<Rightarrow> v)"

text \<open>
  Writing a property, \<^verbatim>\<open>node[k] = v\<close>: an existing property keeps its place in the
  enumeration order; a new one goes last, unless its name is an array index (a canonical
  decimal numeral below \<open>2^32 - 1\<close>): those are enumerated first, in ascending order.
\<close>

definition isDigit :: "char \<Rightarrow> bool" where
  "isDigit c = (48 \<le> (of_char c :: nat) \<and> (of_char c :: nat) \<le> 57)"

definition decValue :: "string \<Rightarrow> nat" where
  "decValue s = foldl (\<lambda>acc c. 10 * acc + ((of_char c :: nat) - 48)) 0 s"

definition isArrayIndex :: "string \<Rightarrow> bool" where
  "isArrayIndex k =
     (k \<noteq> [] \<and> list_all isDigit k \<and> (k = ''0'' \<or> hd k \<noteq> CHR ''0'')
      \<and> length k \<le> 10 \<and> decValue k < 4294967295)"

fun insertProp :: "string \<Rightarrow> jsval \<Rightarrow> (string \<times> jsval) list \<Rightarrow> (string \<times> jsval) list" where
  "insertProp k v [] = [(k, v)]"
| "insertProp k v ((k', v') # ps) =
     (if isArrayIndex k \<and> (\<not> isArrayIndex k' \<or> decValue k < decValue k')
      then (k, v) # (k', v') # ps
      else (k', v') # insertProp k v ps)"

fun replaceProp :: "string \<Rightarrow> jsval \<Rightarrow> (string \<times> jsval) list \<Rightarrow> (string \<times> jsval) list" where
  "replaceProp k v [] = []"
| "replaceProp k v ((k', v') # ps) =
     (if k' = k then (k, v) # ps else (k', v') # replaceProp k v ps)"

definition setProp :: "node \<Rightarrow> string \<Rightarrow> jsval \<Rightarrow> node" where
  "setProp n k v =
     Node (addr n) (if k \<in> fst ` set (props n) then replaceProp k v (props n)
                    else insertProp k v (props n))"

text \<open>
  The records held by the \<^verbatim>\<open>children\<close> array of a node: the nodes below it in the forest.
  A node whose \<^verbatim>\<open>children\<close> is not an array has none.
\<close>

definition childrenOf :: "node \<Rightarrow> node list" where
  "childrenOf n = (case getProp n ''children'' of JArr cs \<Rightarrow> cs | _ \<Rightarrow> [])"

lemma size_map_of_JArr:
  "map_of ps k = Some (JArr cs) \<Longrightarrow> size_list size cs < size_list (size_prod (\<lambda>_. 0) size) ps"
  by (induction ps) (auto split: if_splits)

lemma size_childrenOf [termination_simp]: "size_list size (childrenOf n) < size n"
  by (cases n)
     (auto simp: childrenOf_def getProp_def split: option.splits jsval.splits
           dest!: size_map_of_JArr)

lemma size_child [termination_simp]: "c \<in> set (childrenOf n) \<Longrightarrow> size c < size n"
  using size_childrenOf [of n] size_list_estimation' [of c "childrenOf n" "size c" size]
  by simp

text \<open>A node together with all its descendants, in pre-order.\<close>

fun subtree :: "node \<Rightarrow> node list" where
  "subtree n = n # concat (map subtree (childrenOf n))"

declare subtree.simps [simp del]

definition forestNodes :: "node list \<Rightarrow> node list" where
  "forestNodes ns = concat (map subtree ns)"

section \<open>Errors\<close>

text \<open>
  \<open>TypeError\<close>: a method is called on a value that does not have it
  (\<^verbatim>\<open>node[this.displayField].toLowerCase()\<close> on a value that is not a string,
  \<^verbatim>\<open>node.children.forEach\<close> on a string).
  \<open>AllocationError\<close>: the \<^verbatim>\<open>Error\<close> thrown by \<^verbatim>\<open>generateInternalId\<close> after its attempts are
  used up. \<open>NonFiniteNumber\<close>: with a page size of zero the source goes on with \<^verbatim>\<open>Infinity\<close> or
  \<^verbatim>\<open>NaN\<close> as the number of pages; the integer model stops there.
\<close>

datatype error = TypeError | AllocationError | NonFiniteNumber

section \<open>Descending into the children of a node\<close>

text \<open>
  The guard \<^verbatim>\<open>node.children && node.children.length > 0\<close> of the traversals. It holds for a
  non-empty array and also for a non-empty string, which has a positive \<^verbatim>\<open>length\<close>; a number
  or a boolean has no \<^verbatim>\<open>length\<close>, and \<^verbatim>\<open>undefined > 0\<close> is false.
\<close>

definition hasChildren :: "node \<Rightarrow> bool" where
  "hasChildren n =
     (case getProp n ''children'' of JArr cs \<Rightarrow> cs \<noteq> [] | JStr s \<Rightarrow> s \<noteq> [] | _ \<Rightarrow> False)"

text \<open>
  What a traversal then iterates over, \<^verbatim>\<open>node.children.forEach(...)\<close> or a recursive call
  whose body starts with \<^verbatim>\<open>nodes.forEach(...)\<close>: only an array has that method.
\<close>

definition childArray :: "node \<Rightarrow> error + node list" where
  "childArray n = (case getProp n ''children'' of JArr cs \<Rightarrow> Inr cs | _ \<Rightarrow> Inl TypeError)"

text \<open>\<^verbatim>\<open>nodes.forEach(f)\<close> for a callback that changes the state and may throw.\<close>

fun forEach :: "('a \<Rightarrow> 's \<Rightarrow> error + 's) \<Rightarrow> 'a list \<Rightarrow> 's \<Rightarrow> error + 's" where
  "forEach f [] s = Inr s"
| "forEach f (x # xs) s = (case f x s of Inl e \<Rightarrow> Inl e | Inr s' \<Rightarrow> forEach f xs s')"

lemma forEach_cong [fundef_cong]:
  "xs = ys \<Longrightarrow> s = t \<Longrightarrow> (\<And>x u. x \<in> set ys \<Longrightarrow> f x u = g x u)
     \<Longrightarrow> forEach f xs s = forEach g ys t"
proof (induction ys arbitrary: xs s t)
  case Nil
  then show ?case by simp
next
  case (Cons y ys)
  then show ?case by (cases "g y t") auto
qed

lemma childArray_childrenOf: "childArray n = Inr cs \<Longrightarrow> childrenOf n = cs"
  by (auto simp: childArray_def childrenOf_def split: jsval.splits)

lemma size_childArray [termination_simp]:
  "childArray n = Inr cs \<Longrightarrow> size_list size cs < size n"
  using size_childrenOf [of n] by (simp add: childArray_childrenOf)

lemma size_childArray_member:
  "childArray n = Inr cs \<Longrightarrow> c \<in> set cs \<Longrightarrow> size c < size n"
  using size_child [of c n] by (simp add: childArray_childrenOf)

text \<open>
  A node is well formed for the traversals when its \<^verbatim>\<open>children\<close> is not a non-empty string.
\<close>

definition arrayChildren :: "node \<Rightarrow> bool" where
  "arrayChildren n = (case getProp n ''children'' of JStr s \<Rightarrow> s = [] | _ \<Rightarrow> True)"

section \<open>Strings: lower case, substrings, decimal numerals\<close>

text \<open>
  \<^verbatim>\<open>String.prototype.toLowerCase\<close> on code units below 256: the capital letters \<open>A\<close> to \<open>Z\<close>
  and \<open>0xC0\<close> to \<open>0xDE\<close> (but not the multiplication sign \<open>0xD7\<close>) move up by 32, which sets
  the bit of weight 32 (it is clear in both ranges).
\<close>

definition toLowerChar :: "char \<Rightarrow> char" where
  "toLowerChar c =
     (let n = (of_char c :: nat) in
      if (65 \<le> n \<and> n \<le> 90) \<or> (192 \<le> n \<and> n \<le> 222 \<and> n \<noteq> 215)
      then (case c of Char b0 b1 b2 b3 b4 b5 b6 b7 \<Rightarrow> Char b0 b1 b2 b3 b4 True b6 b7)
      else c)"

definition toLowerCase :: "string \<Rightarrow> string" where
  "toLowerCase s = map toLowerChar s"

text \<open>\<^verbatim>\<open>s.includes(t)\<close>: \<open>t\<close> occurs in \<open>s\<close> at some position.\<close>

fun startsWith :: "string \<Rightarrow> string \<Rightarrow> bool" where
  "startsWith s [] = True"
| "startsWith [] (c # t) = False"
| "startsWith (d # s) (c # t) = (d = c \<and> startsWith s t)"

fun includesStr :: "string \<Rightarrow> string \<Rightarrow> bool" where
  "includesStr [] t = (t = [])"
| "includesStr (d # s) t = (startsWith (d # s) t \<or> includesStr s t)"

definition digitChar :: "nat \<Rightarrow> char" where
  "digitChar d = ''0123456789'' ! (d mod 10)"

function showNat :: "nat \<Rightarrow> string" where
  "showNat n = (if n < 10 then [digitChar n] else showNat (n div 10) @ [digitChar (n mod 10)])"
  by pat_completeness auto
termination
  by (relation "measure id") auto

definition showInt :: "int \<Rightarrow> string" where
  "showInt i = (if i < 0 then CHR ''-'' # showNat (nat (- i)) else showNat (nat i))"

section \<open>JSON.stringify\<close>

definition hexChar :: "nat \<Rightarrow> char" where
  "hexChar d = ''0123456789abcdef'' ! (d mod 16)"

definition escapeChar :: "char \<Rightarrow> string" where
  "escapeChar c =
     (if c = CHR 0x22 then [CHR 0x5C, CHR 0x22]
      else if c = CHR 0x5C then [CHR 0x5C, CHR 0x5C]
      else if c = CHR 0x08 then [CHR 0x5C, CHR ''b'']
      else if c = CHR 0x0C then [CHR 0x5C, CHR ''f'']
      else if c = CHR 0x0A then [CHR 0x5C, CHR ''n'']
      else if c = CHR 0x0D then [CHR 0x5C, CHR ''r'']
      else if c = CHR 0x09 then [CHR 0x5C, CHR ''t'']
      else if (of_char c :: nat) < 32 then
        [CHR 0x5C, CHR ''u'', CHR ''0'', CHR ''0'',
         hexChar (of_char c div 16), hexChar (of_char c mod 16)]
      else [c])"

definition quoteJSON :: "string \<Rightarrow> string" where
  "quoteJSON s = CHR 0x22 # concat (map escapeChar s) @ [CHR 0x22]"

fun joinComma :: "string list \<Rightarrow> string" where
  "joinComma [] = []"
| "joinComma [s] = s"
| "joinComma (s # t # ss) = s @ CHR '','' # joinComma (t # ss)"

text \<open>
  \<^verbatim>\<open>JSON.stringify(node)\<close> without indentation: own properties in enumeration order, a
  property whose value is \<^verbatim>\<open>undefined\<close> left out. Nothing is excluded by name: \<^verbatim>\<open>children\<close>
  and \<^verbatim>\<open>_internalId\<close> are serialized like every other property.
\<close>

fun stringifyVal :: "jsval \<Rightarrow> string option"
and stringifyNode :: "node \<Rightarrow> string"
and stringifyNodes :: "node list \<Rightarrow> string list"
and stringifyProps :: "(string \<times> jsval) list \<Rightarrow> string list" where
  "stringifyVal JUndefined = None"
| "stringifyVal JNull = Some ''null''"
| "stringifyVal (JBool b) = Some (if b then ''true'' else ''false'')"
| "stringifyVal (JNum i) = Some (showInt i)"
| "stringifyVal (JStr s) = Some (quoteJSON s)"
| "stringifyVal (JArr ns) = Some (CHR ''['' # joinComma (stringifyNodes ns) @ '']'')"
| "stringifyNode (Node a ps) = CHR ''{'' # joinComma (stringifyProps ps) @ ''}''"
| "stringifyNodes [] = []"
| "stringifyNodes (n # ns) = stringifyNode n # stringifyNodes ns"
| "stringifyProps [] = []"
| "stringifyProps ((k, v) # ps) =
     (case stringifyVal v of
        None \<Rightarrow> stringifyProps ps
      | Some s \<Rightarrow> (quoteJSON k @ CHR '':'' # s) # stringifyProps ps)"

section \<open>Natural keys\<close>

definition isAlnum :: "char \<Rightarrow> bool" where
  "isAlnum c =
     (let n = (of_char c :: nat) in
      (97 \<le> n \<and> n \<le> 122) \<or> (65 \<le> n \<and> n \<le> 90) \<or> (48 \<le> n \<and> n \<le> 57))"

text \<open>
  \<^verbatim>\<open>generateNodeId(node)\<close>:
  \<^verbatim>\<open>node.id || `node_${JSON.stringify(node).replace(/[^a-zA-Z0-9]/g, '').substring(0, 10)}`\<close>.
\<close>

definition generateNodeId :: "node \<Rightarrow> jsval" where
  "generateNodeId n =
     (if truthy (getProp n ''id'') then getProp n ''id''
      else JStr (''node_'' @ take 10 (filter isAlnum (stringifyNode n))))"

text \<open>The expression \<^verbatim>\<open>node.id || this.generateNodeId(node)\<close> that every traversal uses.\<close>

definition nodeIdOf :: "node \<Rightarrow> jsval" where
  "nodeIdOf n = (if truthy (getProp n ''id'') then getProp n ''id'' else generateNodeId n)"

section \<open>The tree view state\<close>

text \<open>
  The fields of the \<^verbatim>\<open>TreeView\<close> object that the data operations read and write. The three
  indexes hold references to nodes. \<open>filteredData = None\<close> says that \<^verbatim>\<open>this.filteredData\<close> is
  the array \<^verbatim>\<open>this.data\<close> itself. \<open>nextAddr\<close> is the next unused object reference; \<open>clock\<close>
  and \<open>random\<close> give what \<^verbatim>\<open>Date.now()\<close> and
  \<^verbatim>\<open>Math.random().toString(36).substr(2, 9)\<close> return when the id counter has a given value.
\<close>

record treeview =
  data :: "node list"
  displayField :: string
  showPagination :: bool
  pageSize :: int
  currentPage :: int
  totalPages :: int
  selectedNodes :: "jsval set"
  expandedNodes :: "jsval set"
  searchTerm :: string
  filteredData :: "node list option"
  paginatedData :: "node list"
  nodeDataMap :: "jsval \<rightharpoonup> nat"
  internalIdCounter :: nat
  internalIdMap :: "jsval \<rightharpoonup> nat"
  nodeToInternalIdMap :: "nat \<rightharpoonup> jsval"
  usedInternalIds :: "jsval set"
  nextAddr :: nat
  clock :: "nat \<Rightarrow> nat"
  random :: "nat \<Rightarrow> string"

section \<open>Selection\<close>

function selectNodeAndChildren :: "node \<Rightarrow> jsval \<Rightarrow> treeview \<Rightarrow> error + treeview" where
  "selectNodeAndChildren n nodeId tv =
     (let tv1 = tv\<lparr>selectedNodes := insert nodeId (selectedNodes tv)\<rparr> in
      if hasChildren n
      then (case childArray n of
              Inl e \<Rightarrow> Inl e
            | Inr cs \<Rightarrow> forEach (\<lambda>child. selectNodeAndChildren child (nodeIdOf child)) cs tv1)
      else Inr tv1)"
  by pat_completeness auto
termination
  by (relation "measure (\<lambda>(n, nodeId, tv). size n)") (auto dest: size_childArray_member)

function deselectNodeAndChildren :: "node \<Rightarrow> jsval \<Rightarrow> treeview \<Rightarrow> error + treeview" where
  "deselectNodeAndChildren n nodeId tv =
     (let tv1 = tv\<lparr>selectedNodes := selectedNodes tv - {nodeId}\<rparr> in
      if hasChildren n
      then (case childArray n of
              Inl e \<Rightarrow> Inl e
            | Inr cs \<Rightarrow> forEach (\<lambda>child. deselectNodeAndChildren child (nodeIdOf child)) cs tv1)
      else Inr tv1)"
  by pat_completeness auto
termination
  by (relation "measure (\<lambda>(n, nodeId, tv). size n)") (auto dest: size_childArray_member)

declare selectNodeAndChildren.simps [simp del] deselectNodeAndChildren.simps [simp del]

text \<open>\<^verbatim>\<open>toggleSelection(nodeId, checkbox, node)\<close>, without the checkbox and the callback.\<close>

definition toggleSelection :: "jsval \<Rightarrow> node \<Rightarrow> treeview \<Rightarrow> error + treeview" where
  "toggleSelection nodeId n tv =
     (if nodeId \<in> selectedNodes tv then deselectNodeAndChildren n nodeId tv
      else selectNodeAndChildren n nodeId tv)"

section \<open>Identity allocator\<close>

text \<open>
  The \<^verbatim>\<open>do ... while\<close> loop of \<^verbatim>\<open>generateInternalId\<close>; \<open>attempts\<close> is the number of
  candidates already tried.
\<close>

definition candidateId :: "treeview \<Rightarrow> nat \<Rightarrow> jsval" where
  "candidateId tv c = JStr (showNat c @ ''_'' @ showNat (clock tv c) @ ''_'' @ random tv c)"

function generateLoop :: "treeview \<Rightarrow> nat \<Rightarrow> error + (jsval \<times> treeview)" where
  "generateLoop tv attempts =
     (let tv1 = tv\<lparr>internalIdCounter := Suc (internalIdCounter tv)\<rparr>;
          internalId = candidateId tv1 (internalIdCounter tv1);
          attempts1 = Suc attempts
      in if attempts1 > 10000 then Inl AllocationError
         else if internalId \<in> usedInternalIds tv1 then generateLoop tv1 attempts1
         else Inr (internalId, tv1\<lparr>usedInternalIds := insert internalId (usedInternalIds tv1)\<rparr>))"
  by pat_completeness auto
termination
  by (relation "measure (\<lambda>(tv, attempts). 10001 - attempts)") auto

declare generateLoop.simps [simp del]

definition generateInternalId :: "treeview \<Rightarrow> error + (jsval \<times> treeview)" where
  "generateInternalId tv = generateLoop tv 0"

section \<open>Node registry\<close>

lemma childrenOf_setProp_other [termination_simp]:
  "k \<noteq> ''children'' \<Longrightarrow> childrenOf (setProp n k v) = childrenOf n"
proof -
  have r: "\<And>ps. k' \<noteq> k \<Longrightarrow> map_of (replaceProp k v ps) k' = map_of ps k'" for k' :: string
    subgoal for ps by (induction ps) auto
    done
  have i: "\<And>ps. k' \<noteq> k \<Longrightarrow> map_of (insertProp k v ps) k' = map_of ps k'" for k' :: string
    subgoal for ps by (induction ps) auto
    done
  assume "k \<noteq> ''children''"
  then show ?thesis
    using r [of "''children''"] i [of "''children''"]
    by (simp add: childrenOf_def getProp_def setProp_def)
qed

text \<open>
  The \<^verbatim>\<open>mapNodes\<close> closure of \<^verbatim>\<open>buildNodeDataMap\<close>. The nodes are changed in place (a node
  without a usable \<^verbatim>\<open>_internalId\<close> gets one), so the traversal returns the nodes as they are
  afterwards. \<open>claimInternalId\<close> is the block that adopts the carried internal id or generates
  a new one, \<open>indexNode\<close> the three \<^verbatim>\<open>set\<close> calls. The natural key is computed before the
  internal id is assigned. The children array of a node is the same before and after that
  assignment.
\<close>

definition claimInternalId :: "node \<Rightarrow> treeview \<Rightarrow> error + (jsval \<times> node \<times> treeview)" where
  "claimInternalId n tv =
     (let carried = getProp n ''_internalId'' in
      if \<not> truthy carried \<or> internalIdMap tv carried \<noteq> None
      then (case generateInternalId tv of
              Inl e \<Rightarrow> Inl e
            | Inr (internalId, tv1) \<Rightarrow> Inr (internalId, setProp n ''_internalId'' internalId, tv1))
      else Inr (carried, n, tv\<lparr>usedInternalIds := insert carried (usedInternalIds tv)\<rparr>))"

definition indexNode :: "jsval \<Rightarrow> jsval \<Rightarrow> nat \<Rightarrow> treeview \<Rightarrow> treeview" where
  "indexNode nodeId internalId a tv =
     tv\<lparr>nodeDataMap := (nodeDataMap tv)(nodeId \<mapsto> a),
        internalIdMap := (internalIdMap tv)(internalId \<mapsto> a),
        nodeToInternalIdMap := (nodeToInternalIdMap tv)(a \<mapsto> internalId)\<rparr>"

function (sequential) mapNodes :: "node list \<Rightarrow> treeview \<Rightarrow> error + (node list \<times> treeview)" where
  "mapNodes [] tv = Inr ([], tv)"
| "mapNodes (n # ns) tv =
     (let nodeId = nodeIdOf n
      in case claimInternalId n tv of
           Inl e \<Rightarrow> Inl e
         | Inr (internalId, n1, tv1) \<Rightarrow>
             (case (if hasChildren n
                    then (case childArray n of
                            Inl e \<Rightarrow> Inl e
                          | Inr children \<Rightarrow>
                              mapNodes children (indexNode nodeId internalId (addr n) tv1))
                    else Inr ([], indexNode nodeId internalId (addr n) tv1)) of
                Inl e \<Rightarrow> Inl e
              | Inr (cs, tv3) \<Rightarrow>
                  (case mapNodes ns tv3 of
                     Inl e \<Rightarrow> Inl e
                   | Inr (ns', tv4) \<Rightarrow>
                       Inr ((if hasChildren n then setProp n1 ''children'' (JArr cs) else n1)
                            # ns', tv4))))"
  by pat_completeness auto
termination
  by (relation "measure (\<lambda>(ns, tv). size_list size ns)") (auto dest: size_childArray)

declare mapNodes.simps [simp del]

definition buildNodeDataMap :: "treeview \<Rightarrow> error + treeview" where
  "buildNodeDataMap tv =
     (case mapNodes (data tv)
             (tv\<lparr>nodeDataMap := Map.empty, internalIdMap := Map.empty,
                 nodeToInternalIdMap := Map.empty\<rparr>) of
        Inl e \<Rightarrow> Inl e
      | Inr (ns, tv1) \<Rightarrow> Inr (tv1\<lparr>data := ns\<rparr>))"

section \<open>Query engine\<close>

text \<open>
  \<^verbatim>\<open>filterNodes(nodes, searchTerm)\<close>. With an empty term the argument itself is returned.
  Otherwise \<open>filterEach\<close>, the \<^verbatim>\<open>forEach\<close> loop, runs: every retained node is a new object
  \<^verbatim>\<open>{...node, children: filteredChildren}\<close>; the last argument is the next unused reference,
  returned updated. The term is compared as it is given: it is \<^verbatim>\<open>handleSearch\<close> that puts it in
  lower case.
\<close>

fun filterNodes :: "string \<Rightarrow> string \<Rightarrow> node list \<Rightarrow> nat \<Rightarrow> error + (node list \<times> nat)"
and filterEach :: "string \<Rightarrow> string \<Rightarrow> node list \<Rightarrow> nat \<Rightarrow> error + (node list \<times> nat)" where
  "filterNodes df t ns h = (if t = [] then Inr (ns, h) else filterEach df t ns h)"
| "filterEach df t [] h = Inr ([], h)"
| "filterEach df t (n # ns) h =
     (case getProp n df of
        JStr s \<Rightarrow>
          (let nodeMatches = includesStr (toLowerCase s) t in
           case (if hasChildren n
                 then (case childArray n of
                         Inl e \<Rightarrow> Inl e
                       | Inr children \<Rightarrow> filterNodes df t children h)
                 else Inr ([], h)) of
             Inl e \<Rightarrow> Inl e
           | Inr (filteredChildren, h1) \<Rightarrow>
               if nodeMatches \<or> filteredChildren \<noteq> []
               then (case filterEach df t ns (Suc h1) of
                       Inl e \<Rightarrow> Inl e
                     | Inr (rest, h2) \<Rightarrow>
                         Inr (Node h1 (props (setProp n ''children'' (JArr filteredChildren)))
                              # rest, h2))
               else filterEach df t ns h1)
      | _ \<Rightarrow> Inl TypeError)"

declare filterNodes.simps [simp del] filterEach.simps [simp del]

text \<open>The array \<^verbatim>\<open>this.filteredData\<close>.\<close>

definition filteredView :: "treeview \<Rightarrow> node list" where
  "filteredView tv = (case filteredData tv of None \<Rightarrow> data tv | Some ns \<Rightarrow> ns)"

text \<open>\<^verbatim>\<open>this.filteredData = this.filterNodes(this.data, this.searchTerm)\<close>.\<close>

definition applyFilter :: "treeview \<Rightarrow> error + treeview" where
  "applyFilter tv =
     (case filterNodes (displayField tv) (searchTerm tv) (data tv) (nextAddr tv) of
        Inl e \<Rightarrow> Inl e
      | Inr (ns, h) \<Rightarrow>
          Inr (tv\<lparr>filteredData := (if searchTerm tv = [] then None else Some ns),
                  nextAddr := h\<rparr>))"

text \<open>The \<^verbatim>\<open>collectNodeIds\<close> closure of \<^verbatim>\<open>autoExpandSearchResults\<close>.\<close>

function (sequential) collectNodeIds :: "node list \<Rightarrow> error + jsval list" where
  "collectNodeIds [] = Inr []"
| "collectNodeIds (n # ns) =
     (let nodeId = nodeIdOf n
      in case (if hasChildren n
               then (case childArray n of
                       Inl e \<Rightarrow> Inl e
                     | Inr children \<Rightarrow> collectNodeIds children)
               else Inr []) of
           Inl e \<Rightarrow> Inl e
         | Inr below \<Rightarrow>
             (case collectNodeIds ns of
                Inl e \<Rightarrow> Inl e
              | Inr rest \<Rightarrow> Inr ((nodeId # below) @ rest)))"
  by pat_completeness auto
termination
  by (relation "measure (size_list size)") (auto dest: size_childArray)

declare collectNodeIds.simps [simp del]

definition autoExpandSearchResults :: "treeview \<Rightarrow> error + treeview" where
  "autoExpandSearchResults tv =
     (case collectNodeIds (filteredView tv) of
        Inl e \<Rightarrow> Inl e
      | Inr searchResultIds \<Rightarrow>
          Inr (tv\<lparr>expandedNodes := fold insert searchResultIds (expandedNodes tv)\<rparr>))"

section \<open>Paginator\<close>

text \<open>\<^verbatim>\<open>Math.ceil(a / b)\<close> for integers, \<open>b\<close> not zero.\<close>

definition ceilDiv :: "int \<Rightarrow> int \<Rightarrow> int" where
  "ceilDiv a b = - ((- a) div b)"

definition calculatePagination :: "treeview \<Rightarrow> error + treeview" where
  "calculatePagination tv =
     (if pageSize tv = 0 then Inl NonFiniteNumber
      else
        let totalItems = int (length (filteredView tv));
            tv1 = tv\<lparr>totalPages := max 1 (ceilDiv totalItems (pageSize tv))\<rparr>;
            tv2 = (if currentPage tv1 > totalPages tv1
                   then tv1\<lparr>currentPage := totalPages tv1\<rparr> else tv1);
            tv3 = (if currentPage tv2 < 1 then tv2\<lparr>currentPage := 1\<rparr> else tv2)
        in Inr tv3)"

text \<open>\<^verbatim>\<open>Array.prototype.slice(start, end)\<close> with integer arguments.\<close>

definition jsSlice :: "'a list \<Rightarrow> int \<Rightarrow> int \<Rightarrow> 'a list" where
  "jsSlice xs startIndex endIndex =
     (let len = int (length xs);
          k = (if startIndex < 0 then max (len + startIndex) 0 else min startIndex len);
          final = (if endIndex < 0 then max (len + endIndex) 0 else min endIndex len)
      in take (nat (final - k)) (drop (nat k) xs))"

definition getPaginatedData :: "treeview \<Rightarrow> error + (node list \<times> treeview)" where
  "getPaginatedData tv =
     (if \<not> showPagination tv then Inr (filteredView tv, tv)
      else case calculatePagination tv of
             Inl e \<Rightarrow> Inl e
           | Inr tv1 \<Rightarrow>
               let startIndex = (currentPage tv1 - 1) * pageSize tv1;
                   endIndex = startIndex + pageSize tv1;
                   tv2 = tv1\<lparr>paginatedData := jsSlice (filteredView tv1) startIndex endIndex\<rparr>
               in Inr (paginatedData tv2, tv2))"

text \<open>
  \<^verbatim>\<open>updateTreeContent\<close>, without the document (the elements that \<^verbatim>\<open>createTree\<close> builds are
  not part of the state): the page is recomputed and, with pagination shown,
  \<^verbatim>\<open>updatePaginationControls\<close> calls \<^verbatim>\<open>calculatePagination\<close> once more.
\<close>

definition updateTreeContent :: "treeview \<Rightarrow> error + treeview" where
  "updateTreeContent tv =
     (case getPaginatedData tv of
        Inl e \<Rightarrow> Inl e
      | Inr (paginatedNodes, tv1) \<Rightarrow>
          if showPagination tv1 then calculatePagination tv1 else Inr tv1)"

definition setPageSize :: "int \<Rightarrow> treeview \<Rightarrow> error + treeview" where
  "setPageSize newPageSize tv =
     (if newPageSize \<le> 0 then Inr tv
      else updateTreeContent (tv\<lparr>pageSize := newPageSize, currentPage := 1\<rparr>))"

definition goToPage :: "int \<Rightarrow> treeview \<Rightarrow> error + treeview" where
  "goToPage page tv =
     (if page < 1 \<or> page > totalPages tv then Inr tv
      else updateTreeContent (tv\<lparr>currentPage := page\<rparr>))"

definition nextPage :: "treeview \<Rightarrow> error + treeview" where
  "nextPage tv =
     (if currentPage tv < totalPages tv
      then updateTreeContent (tv\<lparr>currentPage := currentPage tv + 1\<rparr>) else Inr tv)"

definition previousPage :: "treeview \<Rightarrow> error + treeview" where
  "previousPage tv =
     (if currentPage tv > 1
      then updateTreeContent (tv\<lparr>currentPage := currentPage tv - 1\<rparr>) else Inr tv)"

definition firstPage :: "treeview \<Rightarrow> error + treeview" where
  "firstPage tv = updateTreeContent (tv\<lparr>currentPage := 1\<rparr>)"

definition lastPage :: "treeview \<Rightarrow> error + treeview" where
  "lastPage tv = updateTreeContent (tv\<lparr>currentPage := totalPages tv\<rparr>)"

definition handleSearch :: "string \<Rightarrow> treeview \<Rightarrow> error + treeview" where
  "handleSearch term tv =
     (case applyFilter (tv\<lparr>searchTerm := toLowerCase term\<rparr>) of
        Inl e \<Rightarrow> Inl e
      | Inr tv1 \<Rightarrow>
          let tv2 = tv1\<lparr>currentPage := 1\<rparr>
          in case (if searchTerm tv2 \<noteq> [] then autoExpandSearchResults tv2 else Inr tv2) of
               Inl e \<Rightarrow> Inl e
             | Inr tv3 \<Rightarrow> updateTreeContent tv3)"

section \<open>Construction and replacement of the data\<close>

text \<open>
  The constructor, with \<^verbatim>\<open>expandAll\<close> left at its default \<^verbatim>\<open>false\<close>: the fields are
  initialised, the registry is built and the first page is computed.
\<close>

definition initialView ::
  "node list \<Rightarrow> string \<Rightarrow> int \<Rightarrow> bool \<Rightarrow> nat \<Rightarrow> (nat \<Rightarrow> nat) \<Rightarrow> (nat \<Rightarrow> string) \<Rightarrow> treeview" where
  "initialView d df ps sp h clk rnd =
     \<lparr>data = d, displayField = df, showPagination = sp, pageSize = ps,
      currentPage = 1, totalPages = 1, selectedNodes = {}, expandedNodes = {},
      searchTerm = [], filteredData = None, paginatedData = [],
      nodeDataMap = Map.empty, internalIdCounter = 0, internalIdMap = Map.empty,
      nodeToInternalIdMap = Map.empty, usedInternalIds = {},
      nextAddr = h, clock = clk, random = rnd\<rparr>"

definition newTreeView ::
  "node list \<Rightarrow> string \<Rightarrow> int \<Rightarrow> bool \<Rightarrow> nat \<Rightarrow> (nat \<Rightarrow> nat) \<Rightarrow> (nat \<Rightarrow> string)
   \<Rightarrow> error + treeview" where
  "newTreeView d df ps sp h clk rnd =
     (case buildNodeDataMap (initialView d df ps sp h clk rnd) of
        Inl e \<Rightarrow> Inl e
      | Inr tv \<Rightarrow> updateTreeContent tv)"

definition updateData :: "node list \<Rightarrow> treeview \<Rightarrow> error + treeview" where
  "updateData newData tv =
     (case buildNodeDataMap (tv\<lparr>data := newData, filteredData := None, currentPage := 1\<rparr>) of
        Inl e \<Rightarrow> Inl e
      | Inr tv1 \<Rightarrow> updateTreeContent tv1)"

definition refreshTree :: "treeview \<Rightarrow> error + treeview" where
  "refreshTree tv =
     (case applyFilter tv of
        Inl e \<Rightarrow> Inl e
      | Inr tv1 \<Rightarrow>
          (case buildNodeDataMap tv1 of
             Inl e \<Rightarrow> Inl e
           | Inr tv2 \<Rightarrow> updateTreeContent tv2))"

section \<open>Tree mutator\<close>

text \<open>
  The forest is a tree of objects: a reference held by an index is followed by looking for
  the node with that reference, in pre-order.
\<close>

definition findNode :: "nat \<Rightarrow> node list \<Rightarrow> node option" where
  "findNode a ns = find (\<lambda>n. addr n = a) (forestNodes ns)"

text \<open>A change made in place to the object with reference \<open>a\<close>.\<close>

fun updateAt :: "nat \<Rightarrow> (node \<Rightarrow> node) \<Rightarrow> node list \<Rightarrow> node list" where
  "updateAt a f [] = []"
| "updateAt a f (n # ns) =
     (if addr n = a then f n
      else if childrenOf n \<noteq> []
           then setProp n ''children'' (JArr (updateAt a f (childrenOf n)))
           else n)
     # updateAt a f ns"

text \<open>
  The \<^verbatim>\<open>removeFromNodes\<close> closure of \<^verbatim>\<open>removeNodeByInternalId\<close>: the first node, in
  pre-order, that is the target object is spliced out of the array that holds it. This loop
  runs over indexes and throws nothing: on a string it meets the characters, none of which is
  the target or has children, and answers false as it does for an array without the target.
\<close>

fun removeFromNodes :: "node list \<Rightarrow> nat \<Rightarrow> node list \<times> bool" where
  "removeFromNodes [] target = ([], False)"
| "removeFromNodes (n # ns) target =
     (if addr n = target then (ns, True)
      else
        let (cs, removed) = (if childrenOf n \<noteq> [] then removeFromNodes (childrenOf n) target
                             else (childrenOf n, False))
        in if removed then (setProp n ''children'' (JArr cs) # ns, True)
           else (let (ns', removed') = removeFromNodes ns target in (n # ns', removed')))"

declare removeFromNodes.simps [simp del] updateAt.simps [simp del]

function cleanupNodeMappings :: "node \<Rightarrow> treeview \<Rightarrow> error + treeview" where
  "cleanupNodeMappings n tv =
     (let nodeId = nodeIdOf n;
          internalId = getProp n ''_internalId'';
          tv1 = tv\<lparr>nodeDataMap := (nodeDataMap tv)(nodeId := None),
                    internalIdMap := (internalIdMap tv)(internalId := None),
                    nodeToInternalIdMap := (nodeToInternalIdMap tv)(addr n := None),
                    selectedNodes := selectedNodes tv - {nodeId},
                    expandedNodes := expandedNodes tv - {nodeId}\<rparr>
      in if hasChildren n
         then (case childArray n of
                 Inl e \<Rightarrow> Inl e
               | Inr cs \<Rightarrow> forEach (\<lambda>child. cleanupNodeMappings child) cs tv1)
         else Inr tv1)"
  by pat_completeness auto
termination
  by (relation "measure (\<lambda>(n, tv). size n)") (auto dest: size_childArray_member)

declare cleanupNodeMappings.simps [simp del]

definition removeNodeByInternalId :: "jsval \<Rightarrow> treeview \<Rightarrow> error + (bool \<times> treeview)" where
  "removeNodeByInternalId internalId tv =
     (if \<not> truthy internalId then Inr (False, tv)
      else case internalIdMap tv internalId of
             None \<Rightarrow> Inr (False, tv)
           | Some target \<Rightarrow>
               (case findNode target (data tv) of
                  None \<Rightarrow> Inr (False, tv)
                | Some nodeToRemove \<Rightarrow>
                    let (ns, removed) = removeFromNodes (data tv) target
                    in if removed
                       then (case cleanupNodeMappings nodeToRemove (tv\<lparr>data := ns\<rparr>) of
                               Inl e \<Rightarrow> Inl e
                             | Inr tv0 \<Rightarrow>
                                 (case applyFilter tv0 of
                                    Inl e \<Rightarrow> Inl e
                                  | Inr tv1 \<Rightarrow>
                                      (case buildNodeDataMap tv1 of
                                         Inl e \<Rightarrow> Inl e
                                       | Inr tv2 \<Rightarrow>
                                           (case updateTreeContent tv2 of
                                              Inl e \<Rightarrow> Inl e
                                            | Inr tv3 \<Rightarrow> Inr (True, tv3)))))
                       else Inr (False, tv)))"

text \<open>
  \<^verbatim>\<open>Object.assign(node, updatedData); node.children = children;
  node._internalId = originalInternalId\<close>.
\<close>

definition assignProps :: "(string \<times> jsval) list \<Rightarrow> node \<Rightarrow> node" where
  "assignProps updatedData n = fold (\<lambda>(k, v) m. setProp m k v) updatedData n"

definition mergeUpdate :: "(string \<times> jsval) list \<Rightarrow> node \<Rightarrow> node" where
  "mergeUpdate updatedData n =
     (let children = getProp n ''children'';
          originalInternalId = getProp n ''_internalId'';
          n1 = assignProps updatedData n;
          n2 = setProp n1 ''children'' children
      in setProp n2 ''_internalId'' originalInternalId)"

text \<open>
  The second argument is \<open>None\<close> for a value that is falsy or not an object, \<open>Some\<close> of the
  own properties of the object otherwise.
\<close>

definition updateNodeByInternalId ::
  "jsval \<Rightarrow> (string \<times> jsval) list option \<Rightarrow> treeview \<Rightarrow> error + (bool \<times> treeview)" where
  "updateNodeByInternalId internalId updatedData tv =
     (if \<not> truthy internalId then Inr (False, tv)
      else case updatedData of
             None \<Rightarrow> Inr (False, tv)
           | Some ups \<Rightarrow>
               (case internalIdMap tv internalId of
                  None \<Rightarrow> Inr (False, tv)
                | Some a \<Rightarrow>
                    (case applyFilter (tv\<lparr>data := updateAt a (mergeUpdate ups) (data tv)\<rparr>) of
                       Inl e \<Rightarrow> Inl e
                     | Inr tv1 \<Rightarrow>
                         (case updateTreeContent tv1 of
                            Inl e \<Rightarrow> Inl e
                          | Inr tv2 \<Rightarrow> Inr (True, tv2)))))"

definition addToRootLevel :: "node \<Rightarrow> string \<Rightarrow> treeview \<Rightarrow> treeview" where
  "addToRootLevel newNode position tv =
     (if position = ''first'' then tv\<lparr>data := newNode # data tv\<rparr>
      else tv\<lparr>data := data tv @ [newNode]\<rparr>)"

text \<open>
  \<^verbatim>\<open>addToParentNode\<close>: a parent without a truthy \<^verbatim>\<open>children\<close> gets an empty array first; a
  truthy \<^verbatim>\<open>children\<close> that is not an array has no \<^verbatim>\<open>push\<close>.
\<close>

definition addToParentNode :: "node \<Rightarrow> node \<Rightarrow> string \<Rightarrow> error + node" where
  "addToParentNode parentNode newNode position =
     (case (if \<not> truthy (getProp parentNode ''children'') then JArr []
            else getProp parentNode ''children'') of
        JArr cs \<Rightarrow>
          Inr (setProp parentNode ''children''
                 (JArr (if position = ''first'' then newNode # cs else cs @ [newNode])))
      | _ \<Rightarrow> Inl TypeError)"

definition isRootSentinel :: "jsval \<Rightarrow> bool" where
  "isRootSentinel p = (p = JNum 0 \<or> p = JNull \<or> p = JUndefined)"

definition addNode ::
  "jsval \<Rightarrow> (string \<times> jsval) list option \<Rightarrow> string \<Rightarrow> treeview
   \<Rightarrow> error + (jsval option \<times> treeview)" where
  "addNode parentInternalId newNodeData position tv =
     (case newNodeData of
        None \<Rightarrow> Inr (None, tv)
      | Some ups \<Rightarrow>
          (case generateInternalId (tv\<lparr>nextAddr := Suc (nextAddr tv)\<rparr>) of
             Inl e \<Rightarrow> Inl e
           | Inr (internalId, tv1) \<Rightarrow>
               let newNode = setProp (Node (nextAddr tv) ups) ''_internalId'' internalId
               in if isRootSentinel parentInternalId
                  then (case refreshTree (addToRootLevel newNode position tv1) of
                          Inl e \<Rightarrow> Inl e
                        | Inr tv2 \<Rightarrow> Inr (Some internalId, tv2))
                  else (case internalIdMap tv1 parentInternalId of
                          None \<Rightarrow> Inr (None, tv1)
                        | Some a \<Rightarrow>
                            (case findNode a (data tv1) of
                               None \<Rightarrow>
                                 (case refreshTree tv1 of
                                    Inl e \<Rightarrow> Inl e
                                  | Inr tv2 \<Rightarrow> Inr (Some internalId, tv2))
                             | Some parentNode \<Rightarrow>
                                 (case addToParentNode parentNode newNode position of
                                    Inl e \<Rightarrow> Inl e
                                  | Inr parentNode' \<Rightarrow>
                                      (case refreshTree
                                              (tv1\<lparr>data := updateAt a (\<lambda>p. parentNode') (data tv1)\<rparr>) of
                                         Inl e \<Rightarrow> Inl e
                                       | Inr tv2 \<Rightarrow> Inr (Some internalId, tv2)))))))"

section \<open>Example data\<close>

text \<open>The forest of the examples of the specification: a root \<open>a\<close> with one child \<open>b\<close>.\<close>

definition exampleForest :: "node list" where
  "exampleForest =
     [Node 100 [(''id'', JStr ''a''), (''name'', JStr ''A''),
              (''children'', JArr [Node 101 [(''id'', JStr ''b''), (''name'', JStr ''B'')]])]]"

definition exampleView :: treeview where
  "exampleView = initialView exampleForest ''name'' 10 True 200 (\<lambda>c. 1700000000000) (\<lambda>c. ''k3j2h1g0f'')"

text \<open>A record without an identifier of its own.\<close>

definition bareNode :: node where
  "bareNode = Node 100 [(''name'', JStr ''A'')]"

section \<open>Navigation\<close>

text \<open>The page navigation methods, and the range a current page must lie in.\<close>

datatype navigation =
  GoToPage int | NextPage | PreviousPage | FirstPage | LastPage | SetPageSize int

fun navigate :: "navigation \<Rightarrow> treeview \<Rightarrow> error + treeview" where
  "navigate (GoToPage page) tv = goToPage page tv"
| "navigate NextPage tv = nextPage tv"
| "navigate PreviousPage tv = previousPage tv"
| "navigate FirstPage tv = firstPage tv"
| "navigate LastPage tv = lastPage tv"
| "navigate (SetPageSize newPageSize) tv = setPageSize newPageSize tv"

text \<open>
  When a navigation method returns at its guard, without a change, and otherwise the page it
  asks for before the content is recomputed.
\<close>

fun navigationRefused :: "navigation \<Rightarrow> treeview \<Rightarrow> bool" where
  "navigationRefused (GoToPage page) tv = (page < 1 \<or> page > totalPages tv)"
| "navigationRefused NextPage tv = (totalPages tv \<le> currentPage tv)"
| "navigationRefused PreviousPage tv = (currentPage tv \<le> 1)"
| "navigationRefused FirstPage tv = False"
| "navigationRefused LastPage tv = False"
| "navigationRefused (SetPageSize newPageSize) tv = (newPageSize \<le> 0)"

fun requestedPage :: "navigation \<Rightarrow> treeview \<Rightarrow> int" where
  "requestedPage (GoToPage page) tv = page"
| "requestedPage NextPage tv = currentPage tv + 1"
| "requestedPage PreviousPage tv = currentPage tv - 1"
| "requestedPage FirstPage tv = 1"
| "requestedPage LastPage tv = totalPages tv"
| "requestedPage (SetPageSize newPageSize) tv = 1"


text \<open>
  What \<^verbatim>\<open>calculatePagination\<close> computes: the number of pages and the clamped current page.
\<close>

definition pagesFor :: "treeview \<Rightarrow> int" where
  "pagesFor tv = max 1 (ceilDiv (int (length (filteredView tv))) (pageSize tv))"

definition clampedPage :: "treeview \<Rightarrow> int" where
  "clampedPage tv = max 1 (min (currentPage tv) (pagesFor tv))"

section \<open>Example data: five root items\<close>



text \<open>
  The view the constructor returns for the example forest, and its two nodes as they are
  after the registry was built.
\<close>

definition exampleBuilt :: treeview where
  "exampleBuilt =
     (case newTreeView exampleForest ''name'' 10 True 200 (\<lambda>c. 1700000000000) (\<lambda>c. ''k3j2h1g0f'') of
        Inr tv \<Rightarrow> tv
      | Inl e \<Rightarrow> exampleView)"

definition builtChild :: node where
  "builtChild = Node 101 [(''id'', JStr ''b''), (''name'', JStr ''B''),
                          (''_internalId'', JStr ''2_1700000000000_k3j2h1g0f'')]"

definition builtRoot :: node where
  "builtRoot = Node 100 [(''id'', JStr ''a''), (''name'', JStr ''A''),
                         (''children'', JArr [builtChild]),
                         (''_internalId'', JStr ''1_1700000000000_k3j2h1g0f'')]"

text \<open>
  The view after \<^verbatim>\<open>addNode(0, {name: "X"}, "first")\<close> on the view of the example forest, and
  the node that was added.
\<close>

definition exampleAdded :: treeview where
  "exampleAdded =
     (case addNode (JNum 0) (Some [(''name'', JStr ''X'')]) ''first'' exampleBuilt of
        Inr (r, tv) \<Rightarrow> tv
      | Inl e \<Rightarrow> exampleBuilt)"

definition addedNode :: node where
  "addedNode = Node 200 [(''name'', JStr ''X''),
                         (''_internalId'', JStr ''3_1700000000000_k3j2h1g0f'')]"

section \<open>The filter, in the words of the specification\<close>

text \<open>
  A node has a display value when the configured display field holds a string; the filter
  can work on it when it has one and its \<^verbatim>\<open>children\<close> is not a non-empty string. It matches
  a term when the display value contains the term as a substring, letter case ignored. It is
  retained when it matches or one of its children is retained. The copy of a retained node
  has the properties of the node, except that its \<^verbatim>\<open>children\<close> are the copies of the retained
  children, in their order.

  Letter case is stated here without the lower-case conversion of the code: the capital
  letters (of the code units below 256) are \<open>A\<close> to \<open>Z\<close> and \<open>0xC0\<close> to \<open>0xDE\<close> without the
  multiplication sign, the small letter of a capital is 32 above it, and two characters are
  the same letter when they are equal or one is the small letter of the other.
\<close>

definition hasDisplay :: "string \<Rightarrow> node \<Rightarrow> bool" where
  "hasDisplay df n = (case getProp n df of JStr s \<Rightarrow> True | _ \<Rightarrow> False)"

definition filterable :: "string \<Rightarrow> node \<Rightarrow> bool" where
  "filterable df n = (hasDisplay df n \<and> arrayChildren n)"

definition isCapital :: "char \<Rightarrow> bool" where
  "isCapital c =
     (let n = (of_char c :: nat) in (65 \<le> n \<and> n \<le> 90) \<or> (192 \<le> n \<and> n \<le> 222 \<and> n \<noteq> 215))"

definition hasCapital :: "string \<Rightarrow> bool" where
  "hasCapital t = list_ex isCapital t"

definition sameLetter :: "char \<Rightarrow> char \<Rightarrow> bool" where
  "sameLetter c d =
     (c = d \<or> (isCapital c \<and> (of_char d :: nat) = of_char c + 32)
            \<or> (isCapital d \<and> (of_char c :: nat) = of_char d + 32))"

fun startsIgnoringCase :: "string \<Rightarrow> string \<Rightarrow> bool" where
  "startsIgnoringCase s [] = True"
| "startsIgnoringCase [] (c # t) = False"
| "startsIgnoringCase (d # s) (c # t) = (sameLetter d c \<and> startsIgnoringCase s t)"

definition containsIgnoringCase :: "string \<Rightarrow> string \<Rightarrow> bool" where
  "containsIgnoringCase s t =
     list_ex (\<lambda>i. startsIgnoringCase (drop i s) t) [0..<Suc (length s)]"

definition matchesTerm :: "string \<Rightarrow> string \<Rightarrow> node \<Rightarrow> bool" where
  "matchesTerm df t n = (case getProp n df of JStr s \<Rightarrow> containsIgnoringCase s t | _ \<Rightarrow> False)"

fun retained :: "string \<Rightarrow> string \<Rightarrow> node \<Rightarrow> bool" where
  "retained df t n = (matchesTerm df t n \<or> (\<exists>c \<in> set (childrenOf n). retained df t c))"

declare retained.simps [simp del]

definition otherProps :: "node \<Rightarrow> (string \<times> jsval) list" where
  "otherProps n = filter (\<lambda>p. fst p \<noteq> ''children'') (props n)"

fun prunedCopy :: "string \<Rightarrow> string \<Rightarrow> node \<Rightarrow> node \<Rightarrow> bool" where
  "prunedCopy df t n r =
     (otherProps r = otherProps n
      \<and> list_all2 (prunedCopy df t) (filter (retained df t) (childrenOf n)) (childrenOf r))"

declare prunedCopy.simps [simp del]

section \<open>Invariants of the registry\<close>

text \<open>
  \<open>registryFrame\<close>: two states differ in the three indexes, the id counter and the set of
  issued ids at most. \<open>carriedIdsRegistered\<close>: every internal id carried by a node of the
  forest is in the set of issued ids, as it is after every rebuild of the registry.
\<close>

definition registryFrame :: "treeview \<Rightarrow> treeview \<Rightarrow> bool" where
  "registryFrame tv tv' =
     (\<exists>ndm c iim n2i u.
        tv' = tv\<lparr>nodeDataMap := ndm, internalIdCounter := c, internalIdMap := iim,
                  nodeToInternalIdMap := n2i, usedInternalIds := u\<rparr>)"

definition carriedIdsRegistered :: "treeview \<Rightarrow> bool" where
  "carriedIdsRegistered tv =
     list_all (\<lambda>m. truthy (getProp m ''_internalId'')
                    \<longrightarrow> getProp m ''_internalId'' \<in> usedInternalIds tv)
              (forestNodes (data tv))"

section \<open>Sequences of operations\<close>

text \<open>
  The data operations that a client can call on a tree view, and a sequence of such calls,
  each one on the state that the call before it left.
\<close>

datatype operation =
    Navigate navigation
  | Search string
  | Toggle jsval node
  | UpdateData "node list"
  | RefreshTree
  | AddNode jsval "(string \<times> jsval) list option" string
  | RemoveNode jsval
  | UpdateNode jsval "(string \<times> jsval) list option"

fun perform :: "operation \<Rightarrow> treeview \<Rightarrow> error + treeview" where
  "perform (Navigate nav) tv = navigate nav tv"
| "perform (Search query) tv = handleSearch query tv"
| "perform (Toggle nodeId n) tv = toggleSelection nodeId n tv"
| "perform (UpdateData newData) tv = updateData newData tv"
| "perform RefreshTree tv = refreshTree tv"
| "perform (AddNode parentInternalId newNodeData position) tv =
     (case addNode parentInternalId newNodeData position tv of
        Inl e \<Rightarrow> Inl e
      | Inr (internalId, tv') \<Rightarrow> Inr tv')"
| "perform (RemoveNode internalId) tv =
     (case removeNodeByInternalId internalId tv of
        Inl e \<Rightarrow> Inl e
      | Inr (removed, tv') \<Rightarrow> Inr tv')"
| "perform (UpdateNode internalId updatedData) tv =
     (case updateNodeByInternalId internalId updatedData tv of
        Inl e \<Rightarrow> Inl e
      | Inr (updated, tv') \<Rightarrow> Inr tv')"

definition performAll :: "operation list \<Rightarrow> treeview \<Rightarrow> error + treeview" where
  "performAll ops tv = forEach perform ops tv"

section \<open>Properties of the descent into children\<close>

lemma arrayChildren_guard:
  "arrayChildren n \<Longrightarrow> hasChildren n = (childrenOf n \<noteq> [])"
  by (auto simp: arrayChildren_def hasChildren_def childrenOf_def split: jsval.splits)

lemma arrayChildren_array:
  "arrayChildren n \<Longrightarrow> hasChildren n \<Longrightarrow> childArray n = Inr (childrenOf n)"
  by (auto simp: arrayChildren_def hasChildren_def childArray_def childrenOf_def split: jsval.splits)

lemma stringChildren_throw:
  "\<not> arrayChildren n \<Longrightarrow> hasChildren n \<and> childArray n = Inl TypeError \<and> childrenOf n = []"
  by (auto simp: arrayChildren_def hasChildren_def childArray_def childrenOf_def split: jsval.splits)

lemma childArray_Inr:
  "childArray n = Inr cs \<Longrightarrow> childrenOf n = cs \<and> arrayChildren n"
  by (auto simp: arrayChildren_def childArray_def childrenOf_def split: jsval.splits)

lemma childArray_Inl: "childArray n = Inl e \<Longrightarrow> e = TypeError"
  by (auto simp: childArray_def split: jsval.splits)

lemma no_children: "\<not> hasChildren n \<Longrightarrow> childrenOf n = [] \<and> arrayChildren n"
  by (auto simp: arrayChildren_def hasChildren_def childrenOf_def split: jsval.splits)

lemma subtree_all:
  "list_all P (subtree n) \<longleftrightarrow> P n \<and> (\<forall>c \<in> set (childrenOf n). list_all P (subtree c))"
  by (subst subtree.simps) (auto simp: list_all_iff)

text \<open>Induction over a forest: the children of the first node, then its siblings.\<close>

lemma forest_induct [case_names Nil Cons]:
  assumes "P []" and "\<And>n ns. P (childrenOf n) \<Longrightarrow> P ns \<Longrightarrow> P (n # ns)"
  shows "P ns"
proof (induction ns rule: measure_induct_rule [where f = "size_list size"])
  case (less ns)
  show ?case
  proof (cases ns)
    case Nil
    then show ?thesis using assms(1) by simp
  next
    case (Cons n rest)
    have "size_list size (childrenOf n) < size_list size ns"
      using size_childrenOf [of n] Cons by simp
    moreover have "size_list size rest < size_list size ns" using Cons by simp
    ultimately show ?thesis using less assms(2) Cons by blast
  qed
qed

section \<open>Properties of the selection tracker\<close>

lemma forEach_select_aux:
  assumes "\<And>c tv. c \<in> set cs \<Longrightarrow>
     f c tv = (if W c then Inr (tv\<lparr>selectedNodes := selectedNodes tv \<union> K c\<rparr>) else Inl TypeError)"
  shows "forEach f cs tv =
     (if \<forall>c \<in> set cs. W c then Inr (tv\<lparr>selectedNodes := selectedNodes tv \<union> \<Union> (K ` set cs)\<rparr>)
      else Inl TypeError)"
  using assms
proof (induction cs arbitrary: tv)
  case Nil
  then show ?case by simp
next
  case (Cons c cs)
  show ?case
  proof (cases "W c")
    case True
    have "forEach f (c # cs) tv = forEach f cs (tv\<lparr>selectedNodes := selectedNodes tv \<union> K c\<rparr>)"
      using Cons.prems [of c tv] True by simp
    also have "\<dots> = (if \<forall>c \<in> set cs. W c
        then Inr (tv\<lparr>selectedNodes := selectedNodes tv \<union> K c \<union> \<Union> (K ` set cs)\<rparr>)
        else Inl TypeError)"
      using Cons.IH [of "tv\<lparr>selectedNodes := selectedNodes tv \<union> K c\<rparr>"] Cons.prems by simp
    finally show ?thesis using True by (simp add: Un_assoc)
  next
    case False
    then show ?thesis using Cons.prems [of c tv] by simp
  qed
qed

lemma forEach_deselect_aux:
  assumes "\<And>c tv. c \<in> set cs \<Longrightarrow>
     f c tv = (if W c then Inr (tv\<lparr>selectedNodes := selectedNodes tv - K c\<rparr>) else Inl TypeError)"
  shows "forEach f cs tv =
     (if \<forall>c \<in> set cs. W c then Inr (tv\<lparr>selectedNodes := selectedNodes tv - \<Union> (K ` set cs)\<rparr>)
      else Inl TypeError)"
  using assms
proof (induction cs arbitrary: tv)
  case Nil
  then show ?case by simp
next
  case (Cons c cs)
  show ?case
  proof (cases "W c")
    case True
    have "forEach f (c # cs) tv = forEach f cs (tv\<lparr>selectedNodes := selectedNodes tv - K c\<rparr>)"
      using Cons.prems [of c tv] True by simp
    also have "\<dots> = (if \<forall>c \<in> set cs. W c
        then Inr (tv\<lparr>selectedNodes := selectedNodes tv - K c - \<Union> (K ` set cs)\<rparr>)
        else Inl TypeError)"
      using Cons.IH [of "tv\<lparr>selectedNodes := selectedNodes tv - K c\<rparr>"] Cons.prems by simp
    finally show ?thesis using True by (simp add: Diff_eq Int_assoc)
  next
    case False
    then show ?thesis using Cons.prems [of c tv] by simp
  qed
qed

lemma subtree_keys_unfold:
  "nodeIdOf ` set (subtree n) = insert (nodeIdOf n) (\<Union>c \<in> set (childrenOf n). nodeIdOf ` set (subtree c))"
  by (subst subtree.simps) auto

lemma select_sub:
  "selectNodeAndChildren n k tv =
     (if list_all arrayChildren (subtree n)
      then Inr (tv\<lparr>selectedNodes := selectedNodes tv
                   \<union> insert k (\<Union>c \<in> set (childrenOf n). nodeIdOf ` set (subtree c))\<rparr>)
      else Inl TypeError)"
proof (induction n arbitrary: k tv rule: subtree.induct)
  case (1 n)
  let ?tv1 = "tv\<lparr>selectedNodes := insert k (selectedNodes tv)\<rparr>"
  show ?case
  proof (cases "arrayChildren n")
    case False
    then have "\<not> list_all arrayChildren (subtree n)" by (simp add: subtree_all [of _ n])
    then show ?thesis using stringChildren_throw [OF False]
      by (subst selectNodeAndChildren.simps) simp
  next
    case True
    show ?thesis
    proof (cases "childrenOf n = []")
      case e: True
      then have "\<not> hasChildren n" using arrayChildren_guard [OF True] by simp
      then show ?thesis using True e
        by (subst selectNodeAndChildren.simps) (simp add: subtree_all [of _ n])
    next
      case ne: False
      then have g: "hasChildren n" "childArray n = Inr (childrenOf n)"
        using arrayChildren_guard [OF True] arrayChildren_array [OF True] by simp_all
      have step: "\<And>c tv'. c \<in> set (childrenOf n) \<Longrightarrow>
          selectNodeAndChildren c (nodeIdOf c) tv' =
            (if list_all arrayChildren (subtree c)
             then Inr (tv'\<lparr>selectedNodes := selectedNodes tv' \<union> nodeIdOf ` set (subtree c)\<rparr>)
             else Inl TypeError)"
        by (subst subtree_keys_unfold) (simp add: 1)
      have "selectNodeAndChildren n k tv =
              forEach (\<lambda>child. selectNodeAndChildren child (nodeIdOf child)) (childrenOf n) ?tv1"
        using g by (subst selectNodeAndChildren.simps) simp
      also have "\<dots> = (if \<forall>c \<in> set (childrenOf n). list_all arrayChildren (subtree c)
          then Inr (?tv1\<lparr>selectedNodes := selectedNodes ?tv1
                       \<union> (\<Union>c \<in> set (childrenOf n). nodeIdOf ` set (subtree c))\<rparr>)
          else Inl TypeError)"
        by (rule forEach_select_aux) (use step in blast)
      finally show ?thesis using True by (simp add: subtree_all [of _ n])
    qed
  qed
qed

lemma deselect_sub:
  "deselectNodeAndChildren n k tv =
     (if list_all arrayChildren (subtree n)
      then Inr (tv\<lparr>selectedNodes := selectedNodes tv
                   - insert k (\<Union>c \<in> set (childrenOf n). nodeIdOf ` set (subtree c))\<rparr>)
      else Inl TypeError)"
proof (induction n arbitrary: k tv rule: subtree.induct)
  case (1 n)
  let ?tv1 = "tv\<lparr>selectedNodes := selectedNodes tv - {k}\<rparr>"
  show ?case
  proof (cases "arrayChildren n")
    case False
    then have "\<not> list_all arrayChildren (subtree n)" by (simp add: subtree_all [of _ n])
    then show ?thesis using stringChildren_throw [OF False]
      by (subst deselectNodeAndChildren.simps) simp
  next
    case True
    show ?thesis
    proof (cases "childrenOf n = []")
      case e: True
      then have "\<not> hasChildren n" using arrayChildren_guard [OF True] by simp
      then show ?thesis using True e
        by (subst deselectNodeAndChildren.simps) (simp add: subtree_all [of _ n])
    next
      case ne: False
      then have g: "hasChildren n" "childArray n = Inr (childrenOf n)"
        using arrayChildren_guard [OF True] arrayChildren_array [OF True] by simp_all
      have step: "\<And>c tv'. c \<in> set (childrenOf n) \<Longrightarrow>
          deselectNodeAndChildren c (nodeIdOf c) tv' =
            (if list_all arrayChildren (subtree c)
             then Inr (tv'\<lparr>selectedNodes := selectedNodes tv' - nodeIdOf ` set (subtree c)\<rparr>)
             else Inl TypeError)"
        by (subst subtree_keys_unfold) (simp add: 1)
      have "deselectNodeAndChildren n k tv =
              forEach (\<lambda>child. deselectNodeAndChildren child (nodeIdOf child)) (childrenOf n) ?tv1"
        using g by (subst deselectNodeAndChildren.simps) simp
      also have "\<dots> = (if \<forall>c \<in> set (childrenOf n). list_all arrayChildren (subtree c)
          then Inr (?tv1\<lparr>selectedNodes := selectedNodes ?tv1
                       - (\<Union>c \<in> set (childrenOf n). nodeIdOf ` set (subtree c))\<rparr>)
          else Inl TypeError)"
        by (rule forEach_deselect_aux) (use step in blast)
      finally have eq: "deselectNodeAndChildren n k tv =
         (if \<forall>c \<in> set (childrenOf n). list_all arrayChildren (subtree c)
          then Inr (?tv1\<lparr>selectedNodes := selectedNodes ?tv1
                       - (\<Union>c \<in> set (childrenOf n). nodeIdOf ` set (subtree c))\<rparr>)
          else Inl TypeError)" .
      have "selectedNodes ?tv1 - (\<Union>c \<in> set (childrenOf n). nodeIdOf ` set (subtree c))
            = selectedNodes tv - insert k (\<Union>c \<in> set (childrenOf n). nodeIdOf ` set (subtree c))"
        by auto
      with eq show ?thesis using True by (simp add: subtree_all [of _ n])
    qed
  qed
qed

lemma select_exact:
  "selectNodeAndChildren n (nodeIdOf n) tv =
     (if list_all arrayChildren (subtree n)
      then Inr (tv\<lparr>selectedNodes := selectedNodes tv \<union> nodeIdOf ` set (subtree n)\<rparr>)
      else Inl TypeError)"
  by (subst subtree_keys_unfold) (simp add: select_sub)

lemma deselect_exact:
  "deselectNodeAndChildren n (nodeIdOf n) tv =
     (if list_all arrayChildren (subtree n)
      then Inr (tv\<lparr>selectedNodes := selectedNodes tv - nodeIdOf ` set (subtree n)\<rparr>)
      else Inl TypeError)"
  by (subst subtree_keys_unfold) (simp add: deselect_sub)

lemma subtree_trans: "d \<in> set (subtree n) \<Longrightarrow> set (subtree d) \<subseteq> set (subtree n)"
proof (induction n rule: subtree.induct)
  case (1 n)
  from "1.prems" have "d = n \<or> (\<exists>c \<in> set (childrenOf n). d \<in> set (subtree c))"
    by (subst (asm) subtree.simps) auto
  then show ?case
  proof
    assume "d = n" then show ?thesis by simp
  next
    assume "\<exists>c \<in> set (childrenOf n). d \<in> set (subtree c)"
    then obtain c where c: "c \<in> set (childrenOf n)" "d \<in> set (subtree c)" by blast
    then have "set (subtree d) \<subseteq> set (subtree c)" using 1 by blast
    moreover have "set (subtree c) \<subseteq> set (subtree n)"
      using c(1) by (subst (2) subtree.simps) auto
    ultimately show ?thesis by blast
  qed
qed

text \<open>
  Claim C4. Cascade-selecting a node adds to the selected set exactly the natural keys of the
  node and of all its descendants, and changes nothing else; cascade-deselecting it removes
  exactly that set. Both throw a \<open>TypeError\<close> exactly when a node of the subtree has a
  non-empty string for \<^verbatim>\<open>children\<close>, on which \<^verbatim>\<open>forEach\<close> is called. When a descendant \<open>d\<close>
  was selected on its own first and the ancestor is then toggled (it is not yet selected),
  the toggle selects the whole subtree, and the next toggle removes exactly the keys of the
  subtree again, those of \<open>d\<close> included.
\<close>

theorem cascade_select_exact:
  "selectNodeAndChildren n (nodeIdOf n) tv
     = (if list_all arrayChildren (subtree n)
        then Inr (tv\<lparr>selectedNodes := selectedNodes tv \<union> nodeIdOf ` set (subtree n)\<rparr>)
        else Inl TypeError)
   \<and> deselectNodeAndChildren n (nodeIdOf n) tv
     = (if list_all arrayChildren (subtree n)
        then Inr (tv\<lparr>selectedNodes := selectedNodes tv - nodeIdOf ` set (subtree n)\<rparr>)
        else Inl TypeError)
   \<and> (list_all arrayChildren (subtree n) \<and> d \<in> set (subtree n)
        \<and> nodeIdOf n \<notin> selectedNodes tv \<union> nodeIdOf ` set (subtree d) \<longrightarrow>
        (\<exists>tv1 tv2 tv3.
            selectNodeAndChildren d (nodeIdOf d) tv = Inr tv1
          \<and> toggleSelection (nodeIdOf n) n tv1 = Inr tv2
          \<and> toggleSelection (nodeIdOf n) n tv2 = Inr tv3
          \<and> selectedNodes tv1 = selectedNodes tv \<union> nodeIdOf ` set (subtree d)
          \<and> selectedNodes tv2 = selectedNodes tv \<union> nodeIdOf ` set (subtree n)
          \<and> selectedNodes tv3 = selectedNodes tv - nodeIdOf ` set (subtree n)))"
proof -
  have n_in: "nodeIdOf n \<in> nodeIdOf ` set (subtree n)"
    by (subst subtree.simps) simp
  have c: "\<exists>tv1 tv2 tv3.
            selectNodeAndChildren d (nodeIdOf d) tv = Inr tv1
          \<and> toggleSelection (nodeIdOf n) n tv1 = Inr tv2
          \<and> toggleSelection (nodeIdOf n) n tv2 = Inr tv3
          \<and> selectedNodes tv1 = selectedNodes tv \<union> nodeIdOf ` set (subtree d)
          \<and> selectedNodes tv2 = selectedNodes tv \<union> nodeIdOf ` set (subtree n)
          \<and> selectedNodes tv3 = selectedNodes tv - nodeIdOf ` set (subtree n)"
    if w: "list_all arrayChildren (subtree n)" and d: "d \<in> set (subtree n)"
      and k: "nodeIdOf n \<notin> selectedNodes tv \<union> nodeIdOf ` set (subtree d)"
  proof -
    let ?tv1 = "tv\<lparr>selectedNodes := selectedNodes tv \<union> nodeIdOf ` set (subtree d)\<rparr>"
    let ?tv2 = "?tv1\<lparr>selectedNodes := selectedNodes ?tv1 \<union> nodeIdOf ` set (subtree n)\<rparr>"
    let ?tv3 = "?tv2\<lparr>selectedNodes := selectedNodes ?tv2 - nodeIdOf ` set (subtree n)\<rparr>"
    have sub: "nodeIdOf ` set (subtree d) \<subseteq> nodeIdOf ` set (subtree n)"
      using subtree_trans [OF d] by blast
    have wd: "list_all arrayChildren (subtree d)"
      using w subtree_trans [OF d] by (auto simp: list_all_iff)
    have s1: "selectNodeAndChildren d (nodeIdOf d) tv = Inr ?tv1"
      using wd by (simp add: select_exact)
    have s2: "toggleSelection (nodeIdOf n) n ?tv1 = Inr ?tv2"
      using k w by (simp add: toggleSelection_def select_exact)
    have s3: "toggleSelection (nodeIdOf n) n ?tv2 = Inr ?tv3"
      using n_in w by (simp add: toggleSelection_def deselect_exact)
    have e2: "selectedNodes ?tv2 = selectedNodes tv \<union> nodeIdOf ` set (subtree n)"
      using sub by auto
    have e3: "selectedNodes ?tv3 = selectedNodes tv - nodeIdOf ` set (subtree n)"
      using sub by auto
    show ?thesis
      by (intro exI [of _ ?tv1] exI [of _ ?tv2] exI [of _ ?tv3] conjI)
         (rule s1, rule s2, rule s3, simp, rule e2, rule e3)
  qed
  show ?thesis
  proof (intro conjI impI)
    show "selectNodeAndChildren n (nodeIdOf n) tv
       = (if list_all arrayChildren (subtree n)
          then Inr (tv\<lparr>selectedNodes := selectedNodes tv \<union> nodeIdOf ` set (subtree n)\<rparr>)
          else Inl TypeError)"
      by (rule select_exact)
    show "deselectNodeAndChildren n (nodeIdOf n) tv
       = (if list_all arrayChildren (subtree n)
          then Inr (tv\<lparr>selectedNodes := selectedNodes tv - nodeIdOf ` set (subtree n)\<rparr>)
          else Inl TypeError)"
      by (rule deselect_exact)
  next
    assume h: "list_all arrayChildren (subtree n) \<and> d \<in> set (subtree n)
        \<and> nodeIdOf n \<notin> selectedNodes tv \<union> nodeIdOf ` set (subtree d)"
    show "\<exists>tv1 tv2 tv3.
            selectNodeAndChildren d (nodeIdOf d) tv = Inr tv1
          \<and> toggleSelection (nodeIdOf n) n tv1 = Inr tv2
          \<and> toggleSelection (nodeIdOf n) n tv2 = Inr tv3
          \<and> selectedNodes tv1 = selectedNodes tv \<union> nodeIdOf ` set (subtree d)
          \<and> selectedNodes tv2 = selectedNodes tv \<union> nodeIdOf ` set (subtree n)
          \<and> selectedNodes tv3 = selectedNodes tv - nodeIdOf ` set (subtree n)"
      by (rule c [OF h [THEN conjunct1] h [THEN conjunct2, THEN conjunct1]
                     h [THEN conjunct2, THEN conjunct2]])
  qed
qed


theorem cascade_select_exact_witness:
  "(let n = hd exampleForest; d = hd (childrenOf n)
    in list_all arrayChildren (subtree n) \<and> d \<in> set (subtree n)
       \<and> nodeIdOf n \<notin> selectedNodes exampleView \<union> nodeIdOf ` set (subtree d)
       \<and> (\<exists>tv1 tv2 tv3.
              selectNodeAndChildren d (nodeIdOf d) exampleView = Inr tv1
            \<and> toggleSelection (nodeIdOf n) n tv1 = Inr tv2
            \<and> toggleSelection (nodeIdOf n) n tv2 = Inr tv3
            \<and> selectedNodes tv1 = {JStr ''b''}
            \<and> selectedNodes tv2 = {JStr ''a'', JStr ''b''}
            \<and> selectedNodes tv3 = {}))
   \<and> selectNodeAndChildren (Node 102 [(''id'', JStr ''c''), (''children'', JStr ''xy'')])
         (JStr ''c'') exampleView = Inl TypeError"
proof -
  let ?n = "hd exampleForest"
  let ?d = "hd (childrenOf ?n)"
  let ?c = "Node 102 [(''id'', JStr ''c''), (''children'', JStr ''xy'')]"
  have kids: "childrenOf ?n = [Node 101 [(''id'', JStr ''b''), (''name'', JStr ''B'')]]"
    by (simp add: exampleForest_def childrenOf_def getProp_def)
  have leaf: "childrenOf (Node 101 [(''id'', JStr ''b''), (''name'', JStr ''B'')]) = []"
    by (simp add: childrenOf_def getProp_def)
  have sd: "subtree ?d = [?d]"
    by (subst subtree.simps) (simp add: kids leaf)
  have sn: "subtree ?n = [?n, ?d]"
    by (subst subtree.simps) (simp add: kids sd [unfolded kids, simplified])
  have kd: "nodeIdOf ?d = JStr ''b''"
    by (simp add: kids nodeIdOf_def getProp_def)
  have kn: "nodeIdOf ?n = JStr ''a''"
    by (simp add: exampleForest_def nodeIdOf_def getProp_def)
  have s0: "selectedNodes exampleView = {}"
    by (simp add: exampleView_def initialView_def)
  have w: "list_all arrayChildren (subtree ?n)"
    unfolding sn by (simp add: kids) (simp add: exampleForest_def arrayChildren_def getProp_def)
  have h1: "?d \<in> set (subtree ?n)" by (simp add: sn)
  have h2: "nodeIdOf ?n \<notin> selectedNodes exampleView \<union> nodeIdOf ` set (subtree ?d)"
    by (simp add: sd kd kn s0)
  note t = cascade_select_exact [of ?n exampleView ?d]
  let ?R = "\<lambda>tv1 tv2 tv3.
      selectNodeAndChildren ?d (nodeIdOf ?d) exampleView = Inr tv1
    \<and> toggleSelection (nodeIdOf ?n) ?n tv1 = Inr tv2
    \<and> toggleSelection (nodeIdOf ?n) ?n tv2 = Inr tv3
    \<and> selectedNodes tv1 = selectedNodes exampleView \<union> nodeIdOf ` set (subtree ?d)
    \<and> selectedNodes tv2 = selectedNodes exampleView \<union> nodeIdOf ` set (subtree ?n)
    \<and> selectedNodes tv3 = selectedNodes exampleView - nodeIdOf ` set (subtree ?n)"
  have "\<exists>tv1 tv2 tv3. ?R tv1 tv2 tv3"
    by (rule t [THEN conjunct2, THEN conjunct2, THEN mp, OF conjI [OF w conjI [OF h1 h2]]])
  then obtain tv1 where "\<exists>tv2 tv3. ?R tv1 tv2 tv3" ..
  then obtain tv2 where "\<exists>tv3. ?R tv1 tv2 tv3" ..
  then obtain tv3 where r0: "?R tv1 tv2 tv3" ..
  note r = r0 [THEN conjunct1] r0 [THEN conjunct2, THEN conjunct1]
    r0 [THEN conjunct2, THEN conjunct2, THEN conjunct1]
    r0 [THEN conjunct2, THEN conjunct2, THEN conjunct2, THEN conjunct1]
    r0 [THEN conjunct2, THEN conjunct2, THEN conjunct2, THEN conjunct2, THEN conjunct1]
    r0 [THEN conjunct2, THEN conjunct2, THEN conjunct2, THEN conjunct2, THEN conjunct2]
  have e1: "selectedNodes tv1 = {JStr ''b''}" using r(4) by (simp add: sd kd s0)
  have e2: "selectedNodes tv2 = {JStr ''a'', JStr ''b''}" using r(5) by (simp add: sn kd kn s0)
  have e3: "selectedNodes tv3 = {}" using r(6) by (simp add: s0)
  have ex: "\<exists>tv1 tv2 tv3.
              selectNodeAndChildren ?d (nodeIdOf ?d) exampleView = Inr tv1
            \<and> toggleSelection (nodeIdOf ?n) ?n tv1 = Inr tv2
            \<and> toggleSelection (nodeIdOf ?n) ?n tv2 = Inr tv3
            \<and> selectedNodes tv1 = {JStr ''b''}
            \<and> selectedNodes tv2 = {JStr ''a'', JStr ''b''}
            \<and> selectedNodes tv3 = {}"
    by (intro exI [of _ tv1] exI [of _ tv2] exI [of _ tv3] conjI)
       (rule r(1), rule r(2), rule r(3), rule e1, rule e2, rule e3)
  have cs: "childrenOf ?c = []" by (simp add: childrenOf_def getProp_def)
  have sc: "subtree ?c = [?c]" by (subst subtree.simps) (simp add: cs)
  have kc: "nodeIdOf ?c = JStr ''c''" by (simp add: nodeIdOf_def getProp_def)
  have bad: "\<not> list_all arrayChildren (subtree ?c)"
    unfolding sc by (simp add: arrayChildren_def getProp_def)
  have thrown: "selectNodeAndChildren ?c (JStr ''c'') exampleView = Inl TypeError"
    using cascade_select_exact [of ?c exampleView ?c, THEN conjunct1] bad by (simp add: kc)
  show ?thesis
    unfolding Let_def by (intro conjI) (rule w, rule h1, rule h2, rule ex, rule thrown)
qed


section \<open>Properties of the query engine\<close>

text \<open>
  Claim C9. Filtering with the empty term returns the forest itself: the same sequence of the
  same objects, no object allocated (the next unused reference is unchanged), and
  \<^verbatim>\<open>this.filteredData\<close> is then the array \<^verbatim>\<open>this.data\<close>.
\<close>

theorem filter_empty_term_identity:
  "filterNodes df [] F h = Inr (F, h)
   \<and> applyFilter (tv\<lparr>searchTerm := []\<rparr>) = Inr (tv\<lparr>searchTerm := [], filteredData := None\<rparr>)
   \<and> filteredView (tv\<lparr>searchTerm := [], filteredData := None\<rparr>) = data tv"
  by (simp add: filterNodes.simps applyFilter_def filteredView_def)

theorem filter_empty_term_identity_witness:
  "filterNodes ''name'' [] exampleForest 200 = Inr (exampleForest, 200)
   \<and> applyFilter (exampleView\<lparr>searchTerm := []\<rparr>) = Inr (exampleView\<lparr>searchTerm := [], filteredData := None\<rparr>)
   \<and> filteredView (exampleView\<lparr>searchTerm := [], filteredData := None\<rparr>) = exampleForest"
  using filter_empty_term_identity [of "''name''" exampleForest 200 exampleView]
  by (simp add: exampleView_def initialView_def)

section \<open>Properties of the natural key\<close>

text \<open>
  The key derived for a record without an identifier changes when the record gets its
  internal id, and when it gets a child: the serialization covers both.
\<close>

theorem derived_key_counterexample:
  "\<not> truthy (getProp bareNode ''id'')
   \<and> generateNodeId bareNode = JStr ''node_nameA''
   \<and> generateNodeId (setProp bareNode ''_internalId'' (JStr ''1_1700000000000_k3j2h1g0f''))
       = JStr ''node_nameAinter''
   \<and> generateNodeId (setProp bareNode ''children'' (JArr [Node 101 [(''name'', JStr ''B'')]]))
       = JStr ''node_nameAchild''
   \<and> generateNodeId (setProp bareNode ''_internalId'' (JStr ''1_1700000000000_k3j2h1g0f''))
       \<noteq> generateNodeId bareNode
   \<and> generateNodeId (setProp bareNode ''children'' (JArr [Node 101 [(''name'', JStr ''B'')]]))
       \<noteq> generateNodeId bareNode"
  by (simp add: bareNode_def generateNodeId_def getProp_def setProp_def isArrayIndex_def
        quoteJSON_def escapeChar_def isAlnum_def isDigit_def)

text \<open>
  Claim C8, as amended. For a node without a truthy \<^verbatim>\<open>id\<close> the natural key is \<^verbatim>\<open>node_\<close>
  followed by the first (at most ten) alphanumeric characters of the serialization of the
  whole node, children and internal id included. Two such nodes have the same key exactly
  when these prefixes of their serializations agree.
\<close>

theorem derived_key_whole_node:
  assumes "\<not> truthy (getProp n ''id'')" and "\<not> truthy (getProp m ''id'')"
  shows "(\<exists>s. nodeIdOf n = JStr (''node_'' @ s) \<and> length s \<le> 10 \<and> list_all isAlnum s
              \<and> s = take 10 (filter isAlnum (stringifyNode n)))
         \<and> (nodeIdOf n = nodeIdOf m \<longleftrightarrow>
              take 10 (filter isAlnum (stringifyNode n)) = take 10 (filter isAlnum (stringifyNode m)))"
proof -
  have "list_all isAlnum (take 10 (filter isAlnum (stringifyNode n)))"
    by (auto simp: list_all_iff dest: in_set_takeD)
  then show ?thesis
    using assms by (simp add: nodeIdOf_def generateNodeId_def)
qed

theorem derived_key_whole_node_witness:
  "\<not> truthy (getProp bareNode ''id'')
   \<and> \<not> truthy (getProp (setProp bareNode ''_internalId'' (JStr ''1_1700000000000_k3j2h1g0f'')) ''id'')
   \<and> nodeIdOf bareNode = JStr ''node_nameA''
   \<and> nodeIdOf bareNode \<noteq> nodeIdOf (setProp bareNode ''_internalId'' (JStr ''1_1700000000000_k3j2h1g0f''))"
proof -
  let ?m = "setProp bareNode ''_internalId'' (JStr ''1_1700000000000_k3j2h1g0f'')"
  have h1: "\<not> truthy (getProp bareNode ''id'')"
    by (simp add: bareNode_def getProp_def)
  have h2: "\<not> truthy (getProp ?m ''id'')"
    by (simp add: bareNode_def getProp_def setProp_def isArrayIndex_def isDigit_def)
  have s1: "take 10 (filter isAlnum (stringifyNode bareNode)) = ''nameA''"
    by (simp add: bareNode_def quoteJSON_def escapeChar_def isAlnum_def)
  have s2: "take 10 (filter isAlnum (stringifyNode ?m)) = ''nameAinter''"
    by (simp add: bareNode_def setProp_def isArrayIndex_def isDigit_def quoteJSON_def
          escapeChar_def isAlnum_def)
  show ?thesis
    using derived_key_whole_node [OF h1 h2] h1 h2 by (auto simp: s1 s2)
qed

section \<open>Properties of the paginator\<close>


lemma calc_eq:
  assumes "pageSize tv \<noteq> 0"
  shows "calculatePagination tv =
           Inr (tv\<lparr>totalPages := pagesFor tv,
                   currentPage := max 1 (min (currentPage tv) (pagesFor tv))\<rparr>)"
  using assms
  by (auto simp: calculatePagination_def Let_def pagesFor_def max_def min_def)


lemma pagesFor_ge1: "1 \<le> pagesFor tv"
  by (simp add: pagesFor_def)

lemma filteredView_upd [simp]:
  "filteredView (tv\<lparr>currentPage := c\<rparr>) = filteredView tv"
  "filteredView (tv\<lparr>totalPages := t\<rparr>) = filteredView tv"
  "filteredView (tv\<lparr>paginatedData := p\<rparr>) = filteredView tv"
  "filteredView (tv\<lparr>pageSize := s\<rparr>) = filteredView tv"
  by (simp_all add: filteredView_def split: option.splits)

lemma pagesFor_upd [simp]:
  "pagesFor (tv\<lparr>currentPage := c\<rparr>) = pagesFor tv"
  "pagesFor (tv\<lparr>totalPages := t\<rparr>) = pagesFor tv"
  "pagesFor (tv\<lparr>paginatedData := p\<rparr>) = pagesFor tv"
  by (simp_all add: pagesFor_def)


lemma clampedPage_range: "1 \<le> clampedPage tv \<and> clampedPage tv \<le> pagesFor tv"
  using pagesFor_ge1 [of tv] by (simp add: clampedPage_def)

lemma getPaginatedData_eq:
  assumes "pageSize tv \<noteq> 0" "showPagination tv"
  shows "getPaginatedData tv =
     (let s = (clampedPage tv - 1) * pageSize tv;
          page = jsSlice (filteredView tv) s (s + pageSize tv)
      in Inr (page, tv\<lparr>totalPages := pagesFor tv, currentPage := clampedPage tv,
                         paginatedData := page\<rparr>))"
  using assms by (simp add: getPaginatedData_def calc_eq Let_def clampedPage_def)

lemma updateTreeContent_eq:
  assumes "pageSize tv \<noteq> 0" "showPagination tv"
  shows "updateTreeContent tv =
     Inr (tv\<lparr>totalPages := pagesFor tv, currentPage := clampedPage tv,
             paginatedData := jsSlice (filteredView tv) ((clampedPage tv - 1) * pageSize tv)
                                ((clampedPage tv - 1) * pageSize tv + pageSize tv)\<rparr>)"
proof -
  let ?tv1 = "tv\<lparr>totalPages := pagesFor tv, currentPage := clampedPage tv,
             paginatedData := jsSlice (filteredView tv) ((clampedPage tv - 1) * pageSize tv)
                                ((clampedPage tv - 1) * pageSize tv + pageSize tv)\<rparr>"
  have c: "max 1 (min (clampedPage tv) (pagesFor tv)) = clampedPage tv"
    using clampedPage_range [of tv] by simp
  have "calculatePagination ?tv1 = Inr ?tv1"
    using assms by (subst calc_eq) (simp_all add: c)
  then show ?thesis
    using assms by (simp add: updateTreeContent_def getPaginatedData_eq Let_def)
qed

lemma updateTreeContent_plain:
  "\<not> showPagination tv \<Longrightarrow> updateTreeContent tv = Inr tv"
  by (simp add: updateTreeContent_def getPaginatedData_def)



lemma navigate_run:
  "navigate nav tv =
     (if navigationRefused nav tv then Inr tv
      else updateTreeContent
             (case nav of
                SetPageSize k \<Rightarrow> tv\<lparr>pageSize := k, currentPage := 1\<rparr>
              | _ \<Rightarrow> tv\<lparr>currentPage := requestedPage nav tv\<rparr>))"
  by (cases nav)
     (auto simp: goToPage_def nextPage_def previousPage_def firstPage_def lastPage_def
        setPageSize_def)



lemmas eval_simps = newTreeView_def initialView_def buildNodeDataMap_def mapNodes.simps
  claimInternalId_def indexNode_def
  generateInternalId_def generateLoop.simps candidateId_def nodeIdOf_def generateNodeId_def
  getProp_def setProp_def isArrayIndex_def isDigit_def quoteJSON_def escapeChar_def isAlnum_def
  childrenOf_def hasChildren_def childArray_def
  updateTreeContent_def getPaginatedData_def calculatePagination_def
  filteredView_def jsSlice_def ceilDiv_def Let_def digitChar_def









section \<open>Properties of the tree mutator: update\<close>

lemma map_of_replaceProp:
  "map_of (replaceProp k v ps) k' =
     (if k' = k \<and> map_of ps k \<noteq> None then Some v else map_of ps k')"
  by (induction ps) auto

lemma map_of_insertProp:
  "k \<notin> fst ` set ps \<Longrightarrow> map_of (insertProp k v ps) k' = (if k' = k then Some v else map_of ps k')"
  by (induction ps) (auto simp: image_iff)

lemma getProp_setProp:
  "getProp (setProp n k v) k' = (if k' = k then v else getProp n k')"
  by (auto simp: getProp_def setProp_def map_of_replaceProp map_of_insertProp
        map_of_eq_None_iff)

lemma addr_setProp [simp]: "addr (setProp n k v) = addr n"
  by (simp add: setProp_def)

lemma childrenOf_setProp_children [simp]:
  "childrenOf (setProp n ''children'' (JArr cs)) = cs"
  by (simp add: childrenOf_def getProp_setProp)



lemma addr_assignProps [simp]: "addr (assignProps ups n) = addr n"
  by (induction ups rule: rev_induct) (auto simp: assignProps_def)

lemma addr_mergeUpdate [simp]: "addr (mergeUpdate ups n) = addr n"
  by (simp add: mergeUpdate_def Let_def)


lemma forestNodes_Cons: "forestNodes (n # ns) = n # forestNodes (childrenOf n) @ forestNodes ns"
  by (simp add: forestNodes_def subtree.simps [of n])

lemma forestNodes_Nil [simp]: "forestNodes [] = []"
  by (simp add: forestNodes_def)

lemma find_append:
  "find P (xs @ ys) = (case find P xs of None \<Rightarrow> find P ys | Some x \<Rightarrow> Some x)"
  by (induction xs) auto



lemma applyFilter_frame:
  assumes "applyFilter tv = Inr tv1"
  shows "\<exists>fd h. tv1 = tv\<lparr>filteredData := fd, nextAddr := h\<rparr>"
  using assms by (auto simp: applyFilter_def split: sum.splits)


lemma updateTreeContent_frame:
  assumes "updateTreeContent tv = Inr tv'"
  shows "\<exists>t c p. tv' = tv\<lparr>totalPages := t, currentPage := c, paginatedData := p\<rparr>"
proof (cases "showPagination tv")
  case True
  note sp = True
  show ?thesis
  proof (cases "pageSize tv = 0")
    case True
    then show ?thesis
      using assms sp
      by (simp add: updateTreeContent_def getPaginatedData_def calculatePagination_def)
  next
    case False
    then show ?thesis
      using assms sp updateTreeContent_eq [of tv] by auto
  qed
next
  case False
  then have "tv' = tv" using assms by (simp add: updateTreeContent_plain)
  then have "tv' = tv\<lparr>totalPages := totalPages tv, currentPage := currentPage tv,
                 paginatedData := paginatedData tv\<rparr>" by simp
  then show ?thesis by blast
qed

lemma updateTreeContent_total:
  "pageSize tv \<noteq> 0 \<Longrightarrow> \<exists>tv'. updateTreeContent tv = Inr tv'"
  using updateTreeContent_eq [of tv] updateTreeContent_plain [of tv] by (cases "showPagination tv") auto



lemma exampleBuilt_eval:
  "(case newTreeView exampleForest ''name'' 10 True 200 (\<lambda>c. 1700000000000) (\<lambda>c. ''k3j2h1g0f'') of
      Inl e \<Rightarrow> False
    | Inr tv \<Rightarrow> data tv = [builtRoot] \<and> searchTerm tv = [] \<and> pageSize tv = 10
        \<and> showPagination tv \<and> filteredData tv = None
        \<and> currentPage tv = 1 \<and> totalPages tv = 1
        \<and> internalIdMap tv (JStr ''1_1700000000000_k3j2h1g0f'') = Some 100
        \<and> internalIdMap tv (JStr ''2_1700000000000_k3j2h1g0f'') = Some 101
        \<and> internalIdMap tv (JStr ''missing'') = None
        \<and> nodeToInternalIdMap tv 101 = Some (JStr ''2_1700000000000_k3j2h1g0f'')
        \<and> nodeDataMap tv (JStr ''b'') = Some 101
        \<and> usedInternalIds tv = {JStr ''2_1700000000000_k3j2h1g0f'', JStr ''1_1700000000000_k3j2h1g0f''}
        \<and> internalIdCounter tv = 2 \<and> nextAddr tv = 200
        \<and> selectedNodes tv = {} \<and> expandedNodes tv = {} \<and> displayField tv = ''name''
        \<and> clock tv = (\<lambda>c. 1700000000000) \<and> random tv = (\<lambda>c. ''k3j2h1g0f'')
        \<and> paginatedData tv = [builtRoot])"
  by (simp add: exampleForest_def builtRoot_def builtChild_def eval_simps)

lemma exampleBuilt_facts:
  "newTreeView exampleForest ''name'' 10 True 200 (\<lambda>c. 1700000000000) (\<lambda>c. ''k3j2h1g0f'') = Inr exampleBuilt
   \<and> data exampleBuilt = [builtRoot] \<and> searchTerm exampleBuilt = [] \<and> pageSize exampleBuilt = 10
   \<and> showPagination exampleBuilt \<and> filteredData exampleBuilt = None
   \<and> currentPage exampleBuilt = 1 \<and> totalPages exampleBuilt = 1
   \<and> internalIdMap exampleBuilt (JStr ''1_1700000000000_k3j2h1g0f'') = Some 100
   \<and> internalIdMap exampleBuilt (JStr ''2_1700000000000_k3j2h1g0f'') = Some 101
   \<and> internalIdMap exampleBuilt (JStr ''missing'') = None
   \<and> nodeToInternalIdMap exampleBuilt 101 = Some (JStr ''2_1700000000000_k3j2h1g0f'')
   \<and> nodeDataMap exampleBuilt (JStr ''b'') = Some 101
   \<and> usedInternalIds exampleBuilt = {JStr ''2_1700000000000_k3j2h1g0f'', JStr ''1_1700000000000_k3j2h1g0f''}
   \<and> internalIdCounter exampleBuilt = 2 \<and> nextAddr exampleBuilt = 200
   \<and> selectedNodes exampleBuilt = {} \<and> expandedNodes exampleBuilt = {}
   \<and> displayField exampleBuilt = ''name''
   \<and> clock exampleBuilt = (\<lambda>c. 1700000000000) \<and> random exampleBuilt = (\<lambda>c. ''k3j2h1g0f'')
   \<and> paginatedData exampleBuilt = [builtRoot]"
  using exampleBuilt_eval
  by (cases "newTreeView exampleForest ''name'' 10 True 200 (\<lambda>c. 1700000000000) (\<lambda>c. ''k3j2h1g0f'')")
     (simp_all add: exampleBuilt_def)

lemma builtChild_children: "childrenOf builtChild = []"
  by (simp add: builtChild_def childrenOf_def getProp_def)

lemma builtRoot_children: "childrenOf builtRoot = [builtChild]"
  by (simp add: builtRoot_def childrenOf_def getProp_def)

lemma subtree_builtChild: "subtree builtChild = [builtChild]"
  by (subst subtree.simps) (simp add: builtChild_children)

lemma subtree_builtRoot: "subtree builtRoot = [builtRoot, builtChild]"
  by (subst subtree.simps) (simp add: builtRoot_children subtree_builtChild)

lemma forestNodes_built: "forestNodes [builtRoot] = [builtRoot, builtChild]"
  by (simp add: forestNodes_def subtree_builtRoot)

lemma addr_built [simp]: "addr builtRoot = 100" "addr builtChild = 101"
  by (simp_all add: builtRoot_def builtChild_def)


section \<open>Properties of the query engine: filtering\<close>

lemma startsWith_iff: "startsWith s t \<longleftrightarrow> (\<exists>post. s = t @ post)"
  by (induction s t rule: startsWith.induct) auto

lemma includesStr_iff: "includesStr s t \<longleftrightarrow> (\<exists>pre post. s = pre @ t @ post)"
proof (induction s)
  case Nil
  then show ?case by auto
next
  case (Cons d s)
  show ?case
  proof
    assume "includesStr (d # s) t"
    then consider "startsWith (d # s) t" | "includesStr s t" by auto
    then show "\<exists>pre post. d # s = pre @ t @ post"
    proof cases
      case 1
      then obtain post where "d # s = t @ post" using startsWith_iff by blast
      then have "d # s = [] @ t @ post" by simp
      then show ?thesis by blast
    next
      case 2
      then obtain pre post where "s = pre @ t @ post" using Cons by blast
      then have "d # s = (d # pre) @ t @ post" by simp
      then show ?thesis by blast
    qed
  next
    assume "\<exists>pre post. d # s = pre @ t @ post"
    then obtain pre post where e: "d # s = pre @ t @ post" by blast
    show "includesStr (d # s) t"
    proof (cases pre)
      case Nil
      then have "startsWith (d # s) t" using e startsWith_iff by auto
      then show ?thesis by simp
    next
      case (Cons p pre')
      then have "s = pre' @ t @ post" using e by simp
      then have "includesStr s t" using Cons.IH by blast
      then show ?thesis by simp
    qed
  qed
qed

text \<open>The lower-case conversion of the code against the letter case of the specification.\<close>

lemma toLowerChar_capital:
  "isCapital c \<Longrightarrow> (of_char (toLowerChar c) :: nat) = of_char c + 32"
proof (cases c)
  case (Char b0 b1 b2 b3 b4 b5 b6 b7)
  assume "isCapital c"
  then have "\<not> b5"
    unfolding Char isCapital_def Let_def
    by (cases b0; cases b1; cases b2; cases b3; cases b4; cases b5; cases b6; cases b7; simp)
  then show ?thesis
    using \<open>isCapital c\<close> unfolding Char by (simp add: toLowerChar_def isCapital_def Let_def)
qed

lemma toLowerChar_small: "\<not> isCapital c \<Longrightarrow> toLowerChar c = c"
  by (auto simp: toLowerChar_def isCapital_def Let_def)

lemma toLowerChar_not_capital: "\<not> isCapital (toLowerChar c)"
proof (cases "isCapital c")
  case True
  from toLowerChar_capital [OF True] True show ?thesis
    by (auto simp: isCapital_def Let_def)
next
  case False
  then show ?thesis by (simp add: toLowerChar_small)
qed

lemma of_char_inj: "(of_char c :: nat) = of_char d \<Longrightarrow> c = d"
  by (metis char_of_char)

lemma toLowerChar_eq_iff: "toLowerChar c = toLowerChar d \<longleftrightarrow> sameLetter c d"
proof (cases "isCapital c"; cases "isCapital d")
  assume c: "isCapital c" and d: "isCapital d"
  have "toLowerChar c = toLowerChar d \<longleftrightarrow> c = d"
    using toLowerChar_capital [OF c] toLowerChar_capital [OF d] of_char_inj [of c d]
    by (metis add_right_cancel)
  moreover have "sameLetter c d \<longleftrightarrow> c = d"
    using c d by (auto simp: sameLetter_def isCapital_def Let_def)
  ultimately show ?thesis by simp
next
  assume c: "isCapital c" and d: "\<not> isCapital d"
  have "toLowerChar c = d \<longleftrightarrow> (of_char d :: nat) = of_char c + 32"
    using toLowerChar_capital [OF c] of_char_inj [of "toLowerChar c" d] by auto
  moreover have "c \<noteq> d" using c d by auto
  ultimately show ?thesis using c d by (simp add: sameLetter_def toLowerChar_small)
next
  assume c: "\<not> isCapital c" and d: "isCapital d"
  have "c = toLowerChar d \<longleftrightarrow> (of_char c :: nat) = of_char d + 32"
    using toLowerChar_capital [OF d] of_char_inj [of c "toLowerChar d"] by auto
  moreover have "c \<noteq> d" using c d by auto
  ultimately show ?thesis using c d by (simp add: sameLetter_def toLowerChar_small)
next
  assume "\<not> isCapital c" "\<not> isCapital d"
  then show ?thesis by (simp add: sameLetter_def toLowerChar_small)
qed

lemma startsWith_lower:
  "startsWith (toLowerCase s) (toLowerCase t) = startsIgnoringCase s t"
  by (induction s t rule: startsIgnoringCase.induct)
     (simp_all add: toLowerCase_def toLowerChar_eq_iff)

lemma includesStr_drop:
  "includesStr s t \<longleftrightarrow> (\<exists>i < Suc (length s). startsWith (drop i s) t)"
proof (induction s)
  case Nil
  then show ?case by (cases t) auto
next
  case (Cons d s)
  have "(\<exists>i < Suc (length (d # s)). startsWith (drop i (d # s)) t)
        \<longleftrightarrow> startsWith (d # s) t \<or> (\<exists>i < Suc (length s). startsWith (drop i s) t)"
  proof
    assume "\<exists>i < Suc (length (d # s)). startsWith (drop i (d # s)) t"
    then obtain i where i: "i < Suc (length (d # s))" "startsWith (drop i (d # s)) t" by blast
    show "startsWith (d # s) t \<or> (\<exists>i < Suc (length s). startsWith (drop i s) t)"
    proof (cases i)
      case 0
      then show ?thesis using i by simp
    next
      case (Suc j)
      then have "j < Suc (length s)" "startsWith (drop j s) t" using i by simp_all
      then show ?thesis by blast
    qed
  next
    assume "startsWith (d # s) t \<or> (\<exists>i < Suc (length s). startsWith (drop i s) t)"
    then show "\<exists>i < Suc (length (d # s)). startsWith (drop i (d # s)) t"
    proof
      assume "startsWith (d # s) t"
      then have "startsWith (drop 0 (d # s)) t" by simp
      then show ?thesis by blast
    next
      assume "\<exists>i < Suc (length s). startsWith (drop i s) t"
      then obtain i where "i < Suc (length s)" "startsWith (drop i s) t" by blast
      then have "Suc i < Suc (length (d # s))" "startsWith (drop (Suc i) (d # s)) t" by simp_all
      then show ?thesis by blast
    qed
  qed
  then show ?case using Cons by simp
qed

lemma containsIgnoringCase_code:
  "containsIgnoringCase s t = includesStr (toLowerCase s) (toLowerCase t)"
proof -
  have "includesStr (toLowerCase s) (toLowerCase t)
        \<longleftrightarrow> (\<exists>i < Suc (length s). startsWith (toLowerCase (drop i s)) (toLowerCase t))"
    by (simp add: includesStr_drop [of "toLowerCase s"]) (simp add: toLowerCase_def drop_map)
  also have "\<dots> \<longleftrightarrow> (\<exists>i < Suc (length s). startsIgnoringCase (drop i s) t)"
    by (simp add: startsWith_lower)
  also have "\<dots> \<longleftrightarrow> containsIgnoringCase s t"
    unfolding containsIgnoringCase_def list_ex_iff by (metis atLeast_upt lessThan_iff)
  finally show ?thesis by simp
qed

lemma capital_term_no_match:
  assumes "hasCapital t"
  shows "\<not> includesStr (toLowerCase s) t"
proof
  assume "includesStr (toLowerCase s) t"
  then obtain pre post where e: "toLowerCase s = pre @ t @ post" using includesStr_iff by blast
  from assms obtain c where c: "c \<in> set t" "isCapital c" by (auto simp: hasCapital_def list_ex_iff)
  then have "c \<in> set (toLowerCase s)" using e by simp
  then obtain d where "c = toLowerChar d" by (auto simp: toLowerCase_def)
  then show False using c(2) toLowerChar_not_capital by simp
qed

lemma small_term_lower: "\<not> hasCapital t \<Longrightarrow> toLowerCase t = t"
  by (simp add: hasCapital_def list_ex_iff toLowerCase_def toLowerChar_small map_idI)

lemma hasCapital_nonempty: "hasCapital t \<Longrightarrow> t \<noteq> []"
  by (auto simp: hasCapital_def)

lemma hasDisplay_JStr: "hasDisplay df n \<Longrightarrow> \<exists>s. getProp n df = JStr s"
  by (auto simp: hasDisplay_def split: jsval.splits)

lemma filter_replaceProp:
  "filter (\<lambda>p. fst p \<noteq> k) (replaceProp k v ps) = filter (\<lambda>p. fst p \<noteq> k) ps"
  by (induction ps) auto

lemma filter_insertProp:
  "filter (\<lambda>p. fst p \<noteq> k) (insertProp k v ps) = filter (\<lambda>p. fst p \<noteq> k) ps"
  by (induction ps) auto

lemma otherProps_copy:
  "otherProps (Node a (props (setProp n ''children'' v))) = otherProps n"
  by (simp add: otherProps_def setProp_def filter_replaceProp filter_insertProp)

lemma getProp_copy:
  "getProp (Node a (props (setProp n ''children'' (JArr cs)))) ''children'' = JArr cs"
proof -
  have "getProp (Node a (props (setProp n ''children'' (JArr cs)))) ''children''
        = getProp (setProp n ''children'' (JArr cs)) ''children''"
    by (simp add: getProp_def)
  then show ?thesis by (simp add: getProp_setProp)
qed

lemma childrenOf_copy:
  "childrenOf (Node a (props (setProp n ''children'' (JArr cs)))) = cs"
  by (simp add: childrenOf_def getProp_copy)

lemma arrayChildren_copy:
  "arrayChildren (Node a (props (setProp n ''children'' (JArr cs))))"
  by (simp add: arrayChildren_def getProp_copy)

lemma matches_code:
  assumes "getProp n df = JStr s"
  shows "includesStr (toLowerCase s) (toLowerCase term) = matchesTerm df term n"
  using assms by (simp add: matchesTerm_def containsIgnoringCase_code)

lemma retained_empty_term:
  assumes "toLowerCase term = []" "hasDisplay df n"
  shows "retained df term n"
proof -
  obtain s where g: "getProp n df = JStr s" using assms(2) hasDisplay_JStr by blast
  have "includesStr (toLowerCase s) []" by (cases "toLowerCase s") simp_all
  then have "matchesTerm df term n"
    using matches_code [OF g, of "term"] assms(1) by simp
  then show ?thesis by (subst retained.simps) simp
qed

lemma list_all_forest_Cons:
  "list_all P (forestNodes (n # ns)) \<longleftrightarrow>
     P n \<and> list_all P (forestNodes (childrenOf n)) \<and> list_all P (forestNodes ns)"
  by (simp add: forestNodes_Cons)

lemma list_all_forest_member:
  "list_all P (forestNodes ns) \<Longrightarrow> c \<in> set ns \<Longrightarrow> P c \<and> list_all P (forestNodes (childrenOf c))"
proof (induction ns)
  case Nil
  then show ?case by simp
next
  case (Cons n ns)
  then show ?case by (auto simp: list_all_forest_Cons)
qed

lemma prunedCopy_refl:
  "toLowerCase q = [] \<Longrightarrow> hasDisplay df n \<Longrightarrow>
   list_all (hasDisplay df) (forestNodes (childrenOf n)) \<Longrightarrow> prunedCopy df q n n"
proof (induction n rule: subtree.induct)
  case (1 n)
  have all: "\<And>c. c \<in> set (childrenOf n) \<Longrightarrow>
      hasDisplay df c \<and> list_all (hasDisplay df) (forestNodes (childrenOf c))"
    using list_all_forest_member [OF "1.prems"(3)] by blast
  then have keep: "filter (retained df q) (childrenOf n) = childrenOf n"
    using retained_empty_term [OF "1.prems"(1)] by (simp add: filter_id_conv)
  have "list_all2 (prunedCopy df q) (childrenOf n) (childrenOf n)"
    unfolding list_all2_conv_all_nth
    using "1.IH" "1.prems"(1) all by simp
  then show ?case by (subst prunedCopy.simps) (simp add: keep)
qed

lemma retained_Cons_step:
  assumes rel: "list_all2 (prunedCopy df term) (filter (retained df term) (childrenOf n)) fc"
      and g: "getProp n df = JStr s"
  shows "retained df term n \<longleftrightarrow> includesStr (toLowerCase s) (toLowerCase term) \<or> fc \<noteq> []"
proof -
  have "fc \<noteq> [] \<longleftrightarrow> filter (retained df term) (childrenOf n) \<noteq> []"
    using list_all2_lengthD [OF rel] by auto
  also have "\<dots> \<longleftrightarrow> (\<exists>c \<in> set (childrenOf n). retained df term c)"
    by (simp add: filter_empty_conv)
  finally show ?thesis
    by (subst retained.simps) (simp add: matches_code [OF g])
qed

text \<open>One turn of the loop of \<^verbatim>\<open>filterNodes\<close> on a node the filter can work on.\<close>

lemma filterEach_Nil [simp]: "filterEach df t [] h = Inr ([], h)"
  by (simp add: filterEach.simps)

lemma filterEach_Cons:
  assumes "getProp n df = JStr s" "arrayChildren n" "t \<noteq> []"
  shows "filterEach df t (n # ns) h =
     (case filterEach df t (childrenOf n) h of
        Inl e \<Rightarrow> Inl e
      | Inr (fc, h1) \<Rightarrow>
          if includesStr (toLowerCase s) t \<or> fc \<noteq> []
          then (case filterEach df t ns (Suc h1) of
                  Inl e \<Rightarrow> Inl e
                | Inr (rest, h2) \<Rightarrow>
                    Inr (Node h1 (props (setProp n ''children'' (JArr fc))) # rest, h2))
          else filterEach df t ns h1)"
proof (cases "hasChildren n")
  case True
  then have "childArray n = Inr (childrenOf n)" using arrayChildren_array [OF assms(2)] by simp
  then show ?thesis using True assms(1,3)
    by (subst filterEach.simps) (simp add: filterNodes.simps Let_def)
next
  case False
  then have "childrenOf n = []" using no_children by simp
  then show ?thesis using False assms(1,3)
    by (subst filterEach.simps) (simp add: Let_def)
qed

lemma filterEach_bad_node:
  assumes "\<not> filterable df n"
  shows "filterEach df t (n # ns) h = Inl TypeError"
proof (cases "hasDisplay df n")
  case False
  then show ?thesis
    by (subst filterEach.simps) (auto simp: hasDisplay_def split: jsval.splits)
next
  case True
  then obtain s where g: "getProp n df = JStr s" using hasDisplay_JStr by blast
  from True assms have "\<not> arrayChildren n" by (simp add: filterable_def)
  from stringChildren_throw [OF this] g show ?thesis
    by (subst filterEach.simps) (simp add: Let_def)
qed

lemma filterEach_spec:
  "t = toLowerCase term \<Longrightarrow> t \<noteq> [] \<Longrightarrow> list_all (filterable df) (forestNodes ns) \<Longrightarrow>
     \<exists>res h'. filterEach df t ns h = Inr (res, h')
        \<and> list_all2 (prunedCopy df term) (filter (retained df term) ns) res
        \<and> list_all arrayChildren (forestNodes res)"
proof (induction ns arbitrary: h rule: forest_induct)
  case Nil
  then show ?case by simp
next
  case (Cons n ns)
  note te = Cons.prems(1) and tne = Cons.prems(2)
  from Cons.prems(3) have dn: "filterable df n"
    and dc: "list_all (filterable df) (forestNodes (childrenOf n))"
    and dr: "list_all (filterable df) (forestNodes ns)"
    by (simp_all add: list_all_forest_Cons)
  from dn obtain s where g: "getProp n df = JStr s" and ac: "arrayChildren n"
    using hasDisplay_JStr by (auto simp: filterable_def)
  let ?m = "includesStr (toLowerCase s) t"
  from Cons.IH(1) [OF te tne dc, of h] obtain fc h1 where
    cr: "filterEach df t (childrenOf n) h = Inr (fc, h1)"
    and rel: "list_all2 (prunedCopy df term) (filter (retained df term) (childrenOf n)) fc"
    and wc: "list_all arrayChildren (forestNodes fc)"
    by blast
  have ret: "retained df term n \<longleftrightarrow> ?m \<or> fc \<noteq> []"
    using retained_Cons_step [OF rel g] te by simp
  show ?case
  proof (cases "?m \<or> fc \<noteq> []")
    case True
    from Cons.IH(2) [OF te tne dr, of "Suc h1"]
    obtain rest h2 where r: "filterEach df t ns (Suc h1) = Inr (rest, h2)"
      and rr: "list_all2 (prunedCopy df term) (filter (retained df term) ns) rest"
      and wr: "list_all arrayChildren (forestNodes rest)" by blast
    let ?copy = "Node h1 (props (setProp n ''children'' (JArr fc)))"
    have pc: "prunedCopy df term n ?copy"
      by (subst prunedCopy.simps) (simp add: otherProps_copy childrenOf_copy rel)
    have e: "filterEach df t (n # ns) h = Inr (?copy # rest, h2)"
      using cr True r by (simp add: filterEach_Cons [OF g ac tne])
    have w: "list_all arrayChildren (forestNodes (?copy # rest))"
      using wc wr by (simp add: list_all_forest_Cons childrenOf_copy arrayChildren_copy)
    have l: "list_all2 (prunedCopy df term) (filter (retained df term) (n # ns)) (?copy # rest)"
      using pc rr ret True by simp
    show ?thesis by (intro exI [of _ "?copy # rest"] exI [of _ h2] conjI) (rule e, rule l, rule w)
  next
    case False
    from Cons.IH(2) [OF te tne dr, of h1]
    obtain rest h2 where r: "filterEach df t ns h1 = Inr (rest, h2)"
      and rr: "list_all2 (prunedCopy df term) (filter (retained df term) ns) rest"
      and wr: "list_all arrayChildren (forestNodes rest)" by blast
    have e: "filterEach df t (n # ns) h = Inr (rest, h2)"
      using cr False r by (simp add: filterEach_Cons [OF g ac tne])
    have l: "list_all2 (prunedCopy df term) (filter (retained df term) (n # ns)) rest"
      using rr ret False by simp
    show ?thesis by (intro exI [of _ rest] exI [of _ h2] conjI) (rule e, rule l, rule wr)
  qed
qed

lemma filterEach_capital:
  "hasCapital t \<Longrightarrow> list_all (filterable df) (forestNodes ns) \<Longrightarrow>
     filterEach df t ns h = Inr ([], h)"
proof (induction ns arbitrary: h rule: forest_induct)
  case Nil
  then show ?case by simp
next
  case (Cons n ns)
  from Cons.prems(2) have dn: "filterable df n"
    and dc: "list_all (filterable df) (forestNodes (childrenOf n))"
    and dr: "list_all (filterable df) (forestNodes ns)"
    by (simp_all add: list_all_forest_Cons)
  from dn obtain s where g: "getProp n df = JStr s" and ac: "arrayChildren n"
    using hasDisplay_JStr by (auto simp: filterable_def)
  have tne: "t \<noteq> []" using Cons.prems(1) by (rule hasCapital_nonempty)
  have nm: "\<not> includesStr (toLowerCase s) t" using Cons.prems(1) by (rule capital_term_no_match)
  show ?case
    using Cons.IH(1) [OF Cons.prems(1) dc, of h] Cons.IH(2) [OF Cons.prems(1) dr, of h] nm
    by (simp add: filterEach_Cons [OF g ac tne])
qed

lemma filterEach_total:
  assumes "t \<noteq> []" "list_all (filterable df) (forestNodes ns)"
  shows "\<exists>res h'. filterEach df t ns h = Inr (res, h')"
proof (cases "hasCapital t")
  case True
  then show ?thesis using filterEach_capital [OF True assms(2)] by simp
next
  case False
  then have "t = toLowerCase t" by (simp add: small_term_lower)
  from filterEach_spec [OF this assms, of h] show ?thesis by blast
qed

lemma filterEach_throws:
  "t \<noteq> [] \<Longrightarrow> \<not> list_all (filterable df) (forestNodes ns) \<Longrightarrow>
     filterEach df t ns h = Inl TypeError"
proof (induction ns arbitrary: h rule: forest_induct)
  case Nil
  then show ?case by simp
next
  case (Cons n ns)
  note tne = Cons.prems(1)
  show ?case
  proof (cases "filterable df n")
    case False
    then show ?thesis by (rule filterEach_bad_node)
  next
    case True
    then obtain s where g: "getProp n df = JStr s" and ac: "arrayChildren n"
      using hasDisplay_JStr by (auto simp: filterable_def)
    show ?thesis
    proof (cases "list_all (filterable df) (forestNodes (childrenOf n))")
      case False
      from Cons.IH(1) [OF tne False, of h] show ?thesis
        by (simp add: filterEach_Cons [OF g ac tne])
    next
      case c: True
      from filterEach_total [OF tne c, of h] obtain fc h1 where
        cr: "filterEach df t (childrenOf n) h = Inr (fc, h1)" by blast
      have "\<not> list_all (filterable df) (forestNodes ns)"
        using Cons.prems(2) True c by (simp add: list_all_forest_Cons)
      from Cons.IH(2) [OF tne this] have "filterEach df t ns (Suc h1) = Inl TypeError"
        "filterEach df t ns h1 = Inl TypeError" by simp_all
      then show ?thesis using cr by (simp add: filterEach_Cons [OF g ac tne])
    qed
  qed
qed

lemma retained_iff_descendant:
  "retained df term n \<longleftrightarrow> (\<exists>m \<in> set (subtree n). matchesTerm df term m)"
proof (induction n rule: subtree.induct)
  case (1 n)
  have "retained df term n \<longleftrightarrow>
          matchesTerm df term n \<or> (\<exists>c \<in> set (childrenOf n). retained df term c)"
    by (subst retained.simps) simp
  also have "\<dots> \<longleftrightarrow> matchesTerm df term n
        \<or> (\<exists>c \<in> set (childrenOf n). \<exists>m \<in> set (subtree c). matchesTerm df term m)"
    using 1 by blast
  also have "\<dots> \<longleftrightarrow> (\<exists>m \<in> set (subtree n). matchesTerm df term m)"
    by (subst (2) subtree.simps) auto
  finally show ?case .
qed

text \<open>The filter itself, on a forest it can work on and on any other.\<close>

lemma filterNodes_spec:
  assumes "list_all (filterable df) (forestNodes ns)"
  shows "\<exists>res h'. filterNodes df (toLowerCase term) ns h = Inr (res, h')
        \<and> list_all2 (prunedCopy df term) (filter (retained df term) ns) res
        \<and> list_all arrayChildren (forestNodes res)"
proof (cases "toLowerCase term = []")
  case True
  have d: "list_all (hasDisplay df) (forestNodes ns)" "list_all arrayChildren (forestNodes ns)"
    using assms by (simp_all add: filterable_def list_all_iff)
  have all: "\<And>c. c \<in> set ns \<Longrightarrow>
      hasDisplay df c \<and> list_all (hasDisplay df) (forestNodes (childrenOf c))"
    using list_all_forest_member [OF d(1)] by blast
  then have keep: "filter (retained df term) ns = ns"
    using retained_empty_term [OF True] by (simp add: filter_id_conv)
  have "list_all2 (prunedCopy df term) ns ns"
    unfolding list_all2_conv_all_nth
    using all prunedCopy_refl [OF True] by simp
  then show ?thesis using True d(2) by (simp add: filterNodes.simps keep)
next
  case False
  from filterEach_spec [OF refl False assms, of h] False show ?thesis
    by (simp add: filterNodes.simps)
qed

lemma collectNodeIds_total:
  "list_all arrayChildren (forestNodes ns) \<Longrightarrow> \<exists>ids. collectNodeIds ns = Inr ids"
proof (induction ns rule: forest_induct)
  case Nil
  then show ?case by (simp add: collectNodeIds.simps)
next
  case (Cons n ns)
  from Cons.prems have a: "arrayChildren n"
    and c: "list_all arrayChildren (forestNodes (childrenOf n))"
    and r: "list_all arrayChildren (forestNodes ns)"
    by (simp_all add: list_all_forest_Cons)
  from Cons.IH(1) [OF c] obtain below where b: "collectNodeIds (childrenOf n) = Inr below" by blast
  from Cons.IH(2) [OF r] obtain rest where t: "collectNodeIds ns = Inr rest" by blast
  show ?case
  proof (cases "hasChildren n")
    case True
    then have "childArray n = Inr (childrenOf n)" using arrayChildren_array [OF a] by simp
    then show ?thesis using True b t by (subst collectNodeIds.simps) (simp add: Let_def)
  next
    case False
    then show ?thesis using t by (subst collectNodeIds.simps) (simp add: Let_def)
  qed
qed

lemma autoExpand_frame:
  "autoExpandSearchResults tv = Inr tv' \<Longrightarrow> \<exists>e. tv' = tv\<lparr>expandedNodes := e\<rparr>"
  by (auto simp: autoExpandSearchResults_def split: sum.splits)

lemma autoExpand_total:
  "list_all arrayChildren (forestNodes (filteredView tv))
     \<Longrightarrow> \<exists>e. autoExpandSearchResults tv = Inr (tv\<lparr>expandedNodes := e\<rparr>)"
  using collectNodeIds_total [of "filteredView tv"]
  by (auto simp: autoExpandSearchResults_def)

lemma handleSearch_filter:
  assumes "handleSearch query tv = Inr tv'"
  shows "\<exists>h'. filterNodes (displayField tv) (toLowerCase query) (data tv) (nextAddr tv)
                 = Inr (filteredView tv', h')
         \<and> data tv' = data tv \<and> selectedNodes tv' = selectedNodes tv"
proof -
  let ?tv0 = "tv\<lparr>searchTerm := toLowerCase query\<rparr>"
  from assms obtain tv1 where f: "applyFilter ?tv0 = Inr tv1"
    by (auto simp: handleSearch_def split: sum.splits)
  then obtain res h' where
    r: "filterNodes (displayField tv) (toLowerCase query) (data tv) (nextAddr tv) = Inr (res, h')"
    and tv1: "tv1 = ?tv0\<lparr>filteredData := (if toLowerCase query = [] then None else Some res),
                         nextAddr := h'\<rparr>"
    by (auto simp: applyFilter_def split: sum.splits)
  have res: "toLowerCase query = [] \<Longrightarrow> res = data tv"
    using r by (simp add: filterNodes.simps)
  let ?tv2 = "tv1\<lparr>currentPage := 1\<rparr>"
  from assms f obtain tv3 where
    x: "(if searchTerm ?tv2 \<noteq> [] then autoExpandSearchResults ?tv2 else Inr ?tv2) = Inr tv3"
    and u: "updateTreeContent tv3 = Inr tv'"
    by (auto simp: handleSearch_def Let_def split: sum.splits)
  obtain e where tv3: "tv3 = ?tv2\<lparr>expandedNodes := e\<rparr>"
  proof (cases "searchTerm ?tv2 \<noteq> []")
    case True
    then show ?thesis using autoExpand_frame [of ?tv2 tv3] x that by auto
  next
    case False
    then have "tv3 = ?tv2\<lparr>expandedNodes := expandedNodes ?tv2\<rparr>" using x by simp
    then show ?thesis using that by blast
  qed
  from updateTreeContent_frame [OF u] obtain t c p where
    "tv' = tv3\<lparr>totalPages := t, currentPage := c, paginatedData := p\<rparr>" by blast
  then have tv': "tv' = ?tv2\<lparr>expandedNodes := e, totalPages := t, currentPage := c,
                            paginatedData := p\<rparr>"
    using tv3 by simp
  have "filteredView tv' = res"
    using res by (simp add: tv' tv1 filteredView_def)
  moreover have "data tv' = data tv" "selectedNodes tv' = selectedNodes tv"
    by (simp_all add: tv' tv1)
  ultimately show ?thesis using r by simp
qed

lemma handleSearch_total:
  assumes "list_all (filterable (displayField tv)) (forestNodes (data tv))" "pageSize tv \<noteq> 0"
  shows "\<exists>tv'. handleSearch query tv = Inr tv'"
proof -
  let ?tv0 = "tv\<lparr>searchTerm := toLowerCase query\<rparr>"
  from filterNodes_spec [OF assms(1), of query "nextAddr tv"] obtain res h' where
    r: "filterNodes (displayField tv) (toLowerCase query) (data tv) (nextAddr tv) = Inr (res, h')"
    and w: "list_all arrayChildren (forestNodes res)" by blast
  let ?tv1 = "?tv0\<lparr>filteredData := (if toLowerCase query = [] then None else Some res),
                    nextAddr := h'\<rparr>"
  have f: "applyFilter ?tv0 = Inr ?tv1" using r by (simp add: applyFilter_def)
  let ?tv2 = "?tv1\<lparr>currentPage := 1\<rparr>"
  have "\<exists>tv3. (if searchTerm ?tv2 \<noteq> [] then autoExpandSearchResults ?tv2 else Inr ?tv2) = Inr tv3
          \<and> pageSize tv3 = pageSize tv"
  proof (cases "toLowerCase query = []")
    case True
    then show ?thesis by simp
  next
    case False
    then have "filteredView ?tv2 = res" by (simp add: filteredView_def)
    from autoExpand_total [of ?tv2] this w obtain e where
      "autoExpandSearchResults ?tv2 = Inr (?tv2\<lparr>expandedNodes := e\<rparr>)" by auto
    then show ?thesis using False by simp
  qed
  then obtain tv3 where
    x: "(if searchTerm ?tv2 \<noteq> [] then autoExpandSearchResults ?tv2 else Inr ?tv2) = Inr tv3"
    and p: "pageSize tv3 = pageSize tv" by blast
  from updateTreeContent_total [of tv3] p assms(2) obtain tv' where
    u: "updateTreeContent tv3 = Inr tv'" by auto
  have "handleSearch query tv = Inr tv'"
    using f x u by (simp add: handleSearch_def Let_def)
  then show ?thesis by blast
qed


text \<open>
  The node named \<open>B\<close> contains the term \<open>B\<close>, yet the filter called with that term as it is
  retains nothing: the display value is put in lower case, the term is not.
\<close>

theorem filter_raw_term_counterexample:
  "matchesTerm ''name'' ''B'' (Node 101 [(''name'', JStr ''B'')])
   \<and> retained ''name'' ''B'' (Node 101 [(''name'', JStr ''B'')])
   \<and> filterNodes ''name'' ''B'' [Node 101 [(''name'', JStr ''B'')]] 200 = Inr ([], 200)"
proof -
  let ?b = "Node 101 [(''name'', JStr ''B'')]"
  have m: "matchesTerm ''name'' ''B'' ?b"
    by (simp add: matchesTerm_def getProp_def containsIgnoringCase_def sameLetter_def)
  have r: "retained ''name'' ''B'' ?b"
    using m by (subst retained.simps) simp
  have f: "filterNodes ''name'' ''B'' [?b] 200 = Inr ([], 200)"
    by (simp add: filterNodes.simps filterEach.simps getProp_def hasChildren_def
          toLowerCase_def toLowerChar_def Let_def)
  show ?thesis by (intro conjI) (rule m, rule r, rule f)
qed

text \<open>
  Claim C1, as amended. On a forest the filter can work on (every node has a string for its
  display value and no non-empty string for \<^verbatim>\<open>children\<close>): the filter called with the
  lower-cased term, as \<^verbatim>\<open>handleSearch\<close> calls it, returns, and its result is, in the order of
  the forest, one copy for each retained root and for no other; the same holds for the
  children of every retained node. A search returns (the page size not being zero), with
  that result as the filtered forest, and leaves the forest and the selection as they are.
  Called with a term as it is, the filter does the same when the term has no capital letter
  and returns the empty forest when it has one. On any other forest the filter, called with
  a non-empty term, throws a \<open>TypeError\<close>. A node is retained exactly when it matches or has
  a retained child, that is, exactly when it or one of its descendants matches.
\<close>

theorem filter_keeps_matches_and_ancestors:
  "(list_all (filterable df) (forestNodes F) \<longrightarrow>
       (\<exists>res h'. filterNodes df (toLowerCase query) F h = Inr (res, h')
            \<and> list_all2 (prunedCopy df query) (filter (retained df query) F) res)
     \<and> (\<forall>tv. displayField tv = df \<and> data tv = F \<and> pageSize tv \<noteq> 0 \<longrightarrow>
            (\<exists>tv'. handleSearch query tv = Inr tv'))
     \<and> (\<forall>tv tv'. displayField tv = df \<and> data tv = F \<and> handleSearch query tv = Inr tv' \<longrightarrow>
            list_all2 (prunedCopy df query) (filter (retained df query) F) (filteredView tv')
            \<and> data tv' = F \<and> selectedNodes tv' = selectedNodes tv)
     \<and> (hasCapital t \<longrightarrow> filterNodes df t F h = Inr ([], h))
     \<and> (\<not> hasCapital t \<longrightarrow>
            (\<exists>res h'. filterNodes df t F h = Inr (res, h')
               \<and> list_all2 (prunedCopy df t) (filter (retained df t) F) res)))
   \<and> (\<not> list_all (filterable df) (forestNodes F) \<and> t \<noteq> [] \<longrightarrow>
         filterNodes df t F h = Inl TypeError)
   \<and> (\<forall>n. retained df query n \<longleftrightarrow>
             matchesTerm df query n \<or> (\<exists>c \<in> set (childrenOf n). retained df query c))
   \<and> (\<forall>n. retained df query n \<longleftrightarrow> (\<exists>m \<in> set (subtree n). matchesTerm df query m))"
proof -
  have a: "\<exists>res h'. filterNodes df (toLowerCase q) F h = Inr (res, h')
            \<and> list_all2 (prunedCopy df q) (filter (retained df q) F) res"
    if "list_all (filterable df) (forestNodes F)" for q h
    using filterNodes_spec [OF that, of q h] by blast
  have b: "list_all2 (prunedCopy df query) (filter (retained df query) F) (filteredView tv')
            \<and> data tv' = F \<and> selectedNodes tv' = selectedNodes tv"
    if "list_all (filterable df) (forestNodes F)"
      "displayField tv = df \<and> data tv = F \<and> handleSearch query tv = Inr tv'" for tv tv'
    using handleSearch_filter [of query tv tv'] a [OF that(1), of query "nextAddr tv"] that(2)
    by auto
  have b': "\<exists>tv'. handleSearch query tv = Inr tv'"
    if "list_all (filterable df) (forestNodes F)"
      "displayField tv = df \<and> data tv = F \<and> pageSize tv \<noteq> 0" for tv
    using handleSearch_total [of tv query] that by simp
  have c: "filterNodes df t F h = Inr ([], h)"
    if "list_all (filterable df) (forestNodes F)" "hasCapital t"
    using filterEach_capital [OF that(2) that(1), of h] hasCapital_nonempty [OF that(2)]
    by (simp add: filterNodes.simps)
  have d: "\<exists>res h'. filterNodes df t F h = Inr (res, h')
               \<and> list_all2 (prunedCopy df t) (filter (retained df t) F) res"
    if "list_all (filterable df) (forestNodes F)" "\<not> hasCapital t"
    using a [OF that(1), of t h] small_term_lower [OF that(2)] by simp
  have e: "filterNodes df t F h = Inl TypeError"
    if "\<not> list_all (filterable df) (forestNodes F) \<and> t \<noteq> []"
    using filterEach_throws [of t df F h] that by (simp add: filterNodes.simps)
  have f: "\<And>n. retained df query n \<longleftrightarrow>
                 matchesTerm df query n \<or> (\<exists>c \<in> set (childrenOf n). retained df query c)"
    by (subst retained.simps) simp
  show ?thesis
  proof (intro conjI impI allI)
    assume w: "list_all (filterable df) (forestNodes F)"
    show "\<exists>res h'. filterNodes df (toLowerCase query) F h = Inr (res, h')
            \<and> list_all2 (prunedCopy df query) (filter (retained df query) F) res"
      by (rule a [OF w])
  next
    fix tv :: treeview
    assume w: "list_all (filterable df) (forestNodes F)"
      and p: "displayField tv = df \<and> data tv = F \<and> pageSize tv \<noteq> 0"
    show "\<exists>tv'. handleSearch query tv = Inr tv'" by (rule b' [OF w p])
  next
    fix tv tv' :: treeview
    assume w: "list_all (filterable df) (forestNodes F)"
      and p: "displayField tv = df \<and> data tv = F \<and> handleSearch query tv = Inr tv'"
    note r = b [OF w p]
    show "list_all2 (prunedCopy df query) (filter (retained df query) F) (filteredView tv')"
      by (rule r [THEN conjunct1])
    show "data tv' = F" by (rule r [THEN conjunct2, THEN conjunct1])
    show "selectedNodes tv' = selectedNodes tv" by (rule r [THEN conjunct2, THEN conjunct2])
  next
    assume w: "list_all (filterable df) (forestNodes F)" and k: "hasCapital t"
    show "filterNodes df t F h = Inr ([], h)" by (rule c [OF w k])
  next
    assume w: "list_all (filterable df) (forestNodes F)" and k: "\<not> hasCapital t"
    show "\<exists>res h'. filterNodes df t F h = Inr (res, h')
               \<and> list_all2 (prunedCopy df t) (filter (retained df t) F) res"
      by (rule d [OF w k])
  next
    assume "\<not> list_all (filterable df) (forestNodes F) \<and> t \<noteq> []"
    then show "filterNodes df t F h = Inl TypeError" by (rule e)
  next
    fix n
    show "retained df query n \<longleftrightarrow>
                 matchesTerm df query n \<or> (\<exists>c \<in> set (childrenOf n). retained df query c)"
      by (rule f)
  next
    fix n
    show "retained df query n \<longleftrightarrow> (\<exists>m \<in> set (subtree n). matchesTerm df query m)"
      by (rule retained_iff_descendant)
  qed
qed


theorem filter_keeps_matches_and_ancestors_witness:
  "list_all (filterable ''name'') (forestNodes exampleForest)
   \<and> \<not> matchesTerm ''name'' ''b'' (hd exampleForest)
   \<and> filter (retained ''name'' ''b'') exampleForest = exampleForest
   \<and> (\<exists>res h'. filterNodes ''name'' (toLowerCase ''b'') exampleForest 200 = Inr (res, h')
          \<and> list_all2 (prunedCopy ''name'' ''b'') exampleForest res)
   \<and> hasCapital ''B'' \<and> filterNodes ''name'' ''B'' exampleForest 200 = Inr ([], 200)
   \<and> filterNodes ''name'' ''a'' [Node 102 [(''name'', JStr ''A''), (''children'', JStr ''xy'')]] 200
       = Inl TypeError
   \<and> displayField exampleBuilt = ''name'' \<and> data exampleBuilt = [builtRoot]
   \<and> pageSize exampleBuilt \<noteq> 0
   \<and> (\<exists>tv'. handleSearch ''B'' exampleBuilt = Inr tv'
          \<and> list_all2 (prunedCopy ''name'' ''B'') [builtRoot] (filteredView tv')
          \<and> data tv' = [builtRoot])"
proof -
  let ?b = "Node 101 [(''id'', JStr ''b''), (''name'', JStr ''B'')]"
  let ?bad = "Node 102 [(''name'', JStr ''A''), (''children'', JStr ''xy'')]"
  have kids: "childrenOf (hd exampleForest) = [?b]" "childrenOf ?b = []"
    by (simp_all add: exampleForest_def childrenOf_def getProp_def)
  have fn: "forestNodes exampleForest = [hd exampleForest, ?b]"
    using kids by (simp add: exampleForest_def forestNodes_Cons)
  have w: "list_all (filterable ''name'') (forestNodes exampleForest)"
    unfolding fn
    by (simp add: exampleForest_def filterable_def hasDisplay_def arrayChildren_def getProp_def)
  have mb: "matchesTerm ''name'' ''b'' ?b"
    by (simp add: matchesTerm_def getProp_def containsIgnoringCase_def sameLetter_def
          isCapital_def)
  have ma: "\<not> matchesTerm ''name'' ''b'' (hd exampleForest)"
    by (simp add: exampleForest_def matchesTerm_def getProp_def containsIgnoringCase_def
          sameLetter_def isCapital_def)
  have rb: "retained ''name'' ''b'' ?b"
    using mb by (subst retained.simps) simp
  have ra: "retained ''name'' ''b'' (hd exampleForest)"
    using rb by (subst retained.simps) (simp add: kids)
  have f: "filter (retained ''name'' ''b'') exampleForest = exampleForest"
    using ra by (simp add: exampleForest_def)
  note t1 = filter_keeps_matches_and_ancestors [of "''name''" exampleForest "''b''" 200 "''B''"]
  note t1w = t1 [THEN conjunct1, THEN mp, OF w]
  have a: "\<exists>res h'. filterNodes ''name'' (toLowerCase ''b'') exampleForest 200 = Inr (res, h')
          \<and> list_all2 (prunedCopy ''name'' ''b'') exampleForest res"
    using t1w [THEN conjunct1] by (simp add: f)
  have cap: "hasCapital ''B''" by (simp add: hasCapital_def isCapital_def)
  have c: "filterNodes ''name'' ''B'' exampleForest 200 = Inr ([], 200)"
    by (rule t1w [THEN conjunct2, THEN conjunct2, THEN conjunct2, THEN conjunct1, THEN mp, OF cap])
  have kb: "childrenOf ?bad = []" by (simp add: childrenOf_def getProp_def)
  have nb: "\<not> list_all (filterable ''name'') (forestNodes [?bad]) \<and> ''a'' \<noteq> []"
    by (simp add: forestNodes_Cons kb) (simp add: filterable_def arrayChildren_def getProp_def)
  have d: "filterNodes ''name'' ''a'' [?bad] 200 = Inl TypeError"
    by (rule filter_keeps_matches_and_ancestors [of "''name''" "[?bad]" _ 200 "''a''",
          THEN conjunct2, THEN conjunct1, THEN mp, OF nb])
  have e1: "displayField exampleBuilt = ''name''" using exampleBuilt_facts by simp
  have e2: "data exampleBuilt = [builtRoot]" using exampleBuilt_facts by simp
  have e3: "pageSize exampleBuilt \<noteq> 0" using exampleBuilt_facts by simp
  have wb: "list_all (filterable ''name'') (forestNodes [builtRoot])"
    unfolding forestNodes_built
    by (simp add: builtRoot_def builtChild_def filterable_def hasDisplay_def arrayChildren_def
          getProp_def)
  have mB: "matchesTerm ''name'' ''B'' builtChild"
    by (simp add: builtChild_def matchesTerm_def getProp_def containsIgnoringCase_def
          sameLetter_def)
  have rB: "retained ''name'' ''B'' builtChild"
    using mB by (subst retained.simps) simp
  have rA: "retained ''name'' ''B'' builtRoot"
    using rB by (subst retained.simps) (simp add: builtRoot_children)
  note t2 = filter_keeps_matches_and_ancestors [of "''name''" "[builtRoot]" "''B''" 200 "''B''",
      THEN conjunct1, THEN mp, OF wb]
  have "\<exists>tv'. handleSearch ''B'' exampleBuilt = Inr tv'"
    by (rule t2 [THEN conjunct2, THEN conjunct1, THEN spec, THEN mp, OF conjI [OF e1 conjI [OF e2 e3]]])
  then obtain tv' where hs: "handleSearch ''B'' exampleBuilt = Inr tv'" ..
  note r = t2 [THEN conjunct2, THEN conjunct2, THEN conjunct1, THEN spec, THEN spec, THEN mp,
      OF conjI [OF e1 conjI [OF e2 hs]]]
  have r1: "list_all2 (prunedCopy ''name'' ''B'') [builtRoot] (filteredView tv')"
    using r [THEN conjunct1] rA by simp
  have r2: "data tv' = [builtRoot]" by (rule r [THEN conjunct2, THEN conjunct1])
  have g: "\<exists>tv'. handleSearch ''B'' exampleBuilt = Inr tv'
          \<and> list_all2 (prunedCopy ''name'' ''B'') [builtRoot] (filteredView tv')
          \<and> data tv' = [builtRoot]"
    by (intro exI [of _ tv'] conjI) (rule hs, rule r1, rule r2)
  show ?thesis
    by (intro conjI) (rule w, rule ma, rule f, rule a, rule cap, rule c, rule d, rule e1, rule e2,
        rule e3, rule g)
qed

section \<open>Properties of the allocator and of the registry rebuild\<close>

lemma truthy_candidateId: "truthy (candidateId tv c)"
  by (simp add: candidateId_def)

lemma generateLoop_result:
  "generateLoop tv k = Inr (x, tv') \<Longrightarrow>
     x \<notin> usedInternalIds tv \<and> truthy x
     \<and> internalIdCounter tv < internalIdCounter tv'
     \<and> tv' = tv\<lparr>internalIdCounter := internalIdCounter tv',
                 usedInternalIds := insert x (usedInternalIds tv)\<rparr>"
proof (induction tv k rule: generateLoop.induct)
  case (1 tv attempts)
  let ?tv1 = "tv\<lparr>internalIdCounter := Suc (internalIdCounter tv)\<rparr>"
  let ?id = "candidateId ?tv1 (internalIdCounter ?tv1)"
  from "1.prems" have le: "\<not> Suc attempts > 10000"
    by (subst (asm) generateLoop.simps) (auto simp: Let_def split: if_splits)
  show ?case
  proof (cases "?id \<in> usedInternalIds ?tv1")
    case True
    then have "generateLoop ?tv1 (Suc attempts) = Inr (x, tv')"
      using "1.prems" le by (subst (asm) generateLoop.simps) (simp add: Let_def)
    from "1.IH" [OF refl refl refl le True this] show ?thesis by auto
  next
    case False
    then have "x = ?id" "tv' = ?tv1\<lparr>usedInternalIds := insert ?id (usedInternalIds ?tv1)\<rparr>"
      using "1.prems" le by (subst (asm) generateLoop.simps, simp add: Let_def)+
    then show ?thesis using False by (simp add: truthy_candidateId)
  qed
qed

lemma generateInternalId_result:
  "generateInternalId tv = Inr (x, tv') \<Longrightarrow>
     x \<notin> usedInternalIds tv \<and> truthy x
     \<and> internalIdCounter tv < internalIdCounter tv'
     \<and> tv' = tv\<lparr>internalIdCounter := internalIdCounter tv',
                 usedInternalIds := insert x (usedInternalIds tv)\<rparr>"
  unfolding generateInternalId_def by (rule generateLoop_result)


lemma claimInternalId_result:
  assumes "claimInternalId n tv = Inr (x, n1, tv1)"
  shows "truthy x \<and> getProp n1 ''_internalId'' = x \<and> addr n1 = addr n
     \<and> childrenOf n1 = childrenOf n
     \<and> tv1 = tv\<lparr>internalIdCounter := internalIdCounter tv1,
                  usedInternalIds := insert x (usedInternalIds tv)\<rparr>
     \<and> internalIdCounter tv \<le> internalIdCounter tv1
     \<and> ((x = getProp n ''_internalId'' \<and> internalIdMap tv x = None \<and> n1 = n)
          \<or> (x \<notin> usedInternalIds tv \<and> n1 = setProp n ''_internalId'' x
              \<and> (\<not> truthy (getProp n ''_internalId'')
                   \<or> internalIdMap tv (getProp n ''_internalId'') \<noteq> None)))"
proof (cases "\<not> truthy (getProp n ''_internalId'')
              \<or> internalIdMap tv (getProp n ''_internalId'') \<noteq> None")
  case True
  with assms obtain g: "generateInternalId tv = Inr (x, tv1)"
    and n1: "n1 = setProp n ''_internalId'' x"
    by (auto simp: claimInternalId_def Let_def split: sum.splits)
  from generateInternalId_result [OF g] n1 True show ?thesis
    by (auto simp: getProp_setProp childrenOf_setProp_other)
next
  case False
  with assms have "x = getProp n ''_internalId''" "n1 = n"
    "tv1 = tv\<lparr>usedInternalIds := insert x (usedInternalIds tv)\<rparr>"
    by (auto simp: claimInternalId_def Let_def)
  with False show ?thesis by auto
qed

lemma mapNodes_Cons:
  "mapNodes (n # ns) tv =
     (case claimInternalId n tv of
        Inl e \<Rightarrow> Inl e
      | Inr (x, n1, tv1) \<Rightarrow>
          if \<not> arrayChildren n then Inl TypeError
          else (case mapNodes (childrenOf n) (indexNode (nodeIdOf n) x (addr n) tv1) of
                  Inl e \<Rightarrow> Inl e
                | Inr (cs, tv3) \<Rightarrow>
                    (case mapNodes ns tv3 of
                       Inl e \<Rightarrow> Inl e
                     | Inr (ns', tv4) \<Rightarrow>
                         Inr ((if childrenOf n \<noteq> [] then setProp n1 ''children'' (JArr cs)
                               else n1) # ns', tv4))))"
proof (cases "arrayChildren n")
  case False
  from stringChildren_throw [OF False] False show ?thesis
    by (subst mapNodes.simps) (simp add: Let_def split: sum.splits prod.splits)
next
  case True
  show ?thesis
  proof (cases "hasChildren n")
    case h: True
    then have "childArray n = Inr (childrenOf n)" "childrenOf n \<noteq> []"
      using arrayChildren_array [OF True] arrayChildren_guard [OF True] by simp_all
    then show ?thesis using True h
      by (subst mapNodes.simps) (simp add: Let_def split: sum.splits prod.splits)
  next
    case h: False
    then have "childrenOf n = []" using no_children by simp
    then show ?thesis using True h
      by (subst mapNodes.simps) (simp add: Let_def mapNodes.simps(1) split: sum.splits prod.splits)
  qed
qed

lemma mapNodes_Cons_result:
  assumes "mapNodes (n # ns) tv = Inr (res, tv')"
  shows "\<exists>x n1 tv1 cs tv3 ns'.
           claimInternalId n tv = Inr (x, n1, tv1)
         \<and> mapNodes (childrenOf n) (indexNode (nodeIdOf n) x (addr n) tv1) = Inr (cs, tv3)
         \<and> mapNodes ns tv3 = Inr (ns', tv')
         \<and> res = (if childrenOf n \<noteq> [] then setProp n1 ''children'' (JArr cs) else n1) # ns'"
  using assms
  by (subst (asm) mapNodes_Cons) (auto split: sum.splits prod.splits if_splits)

text \<open>A rebuild returns only on a forest whose nodes have no string for \<^verbatim>\<open>children\<close>.\<close>

lemma mapNodes_Cons_array:
  assumes "mapNodes (n # ns) tv = Inr (res, tv')"
  shows "arrayChildren n"
  using assms
  by (subst (asm) mapNodes_Cons) (auto split: sum.splits prod.splits if_splits)

lemma mapNodes_rule:
  assumes run: "mapNodes ns tv = Inr (res, tv')"
      and base: "\<And>tv. P [] tv [] tv"
      and step: "\<And>n ns tv x n1 tv1 cs tv3 ns' tv'.
         \<lbrakk>claimInternalId n tv = Inr (x, n1, tv1);
          mapNodes (childrenOf n) (indexNode (nodeIdOf n) x (addr n) tv1) = Inr (cs, tv3);
          P (childrenOf n) (indexNode (nodeIdOf n) x (addr n) tv1) cs tv3;
          mapNodes ns tv3 = Inr (ns', tv'); P ns tv3 ns' tv'\<rbrakk>
         \<Longrightarrow> P (n # ns) tv
               ((if childrenOf n \<noteq> [] then setProp n1 ''children'' (JArr cs) else n1) # ns') tv'"
  shows "P ns tv res tv'"
  using run
proof (induction ns arbitrary: tv res tv' rule: forest_induct)
  case Nil
  then show ?case using base by (simp add: mapNodes.simps)
next
  case (Cons n ns)
  from mapNodes_Cons_result [OF Cons.prems] obtain x n1 tv1 cs tv3 ns' where
    c: "claimInternalId n tv = Inr (x, n1, tv1)"
    and k: "mapNodes (childrenOf n) (indexNode (nodeIdOf n) x (addr n) tv1) = Inr (cs, tv3)"
    and r: "mapNodes ns tv3 = Inr (ns', tv')"
    and res: "res = (if childrenOf n \<noteq> [] then setProp n1 ''children'' (JArr cs) else n1) # ns'"
    by blast
  show ?case unfolding res using step [OF c k Cons.IH(1) [OF k] r Cons.IH(2) [OF r]] .
qed


lemma registryFrame_refl: "registryFrame tv tv"
proof -
  have "tv = tv\<lparr>nodeDataMap := nodeDataMap tv, internalIdCounter := internalIdCounter tv,
                 internalIdMap := internalIdMap tv,
                 nodeToInternalIdMap := nodeToInternalIdMap tv,
                 usedInternalIds := usedInternalIds tv\<rparr>" by simp
  then show ?thesis unfolding registryFrame_def by blast
qed

lemma registryFrame_trans:
  "registryFrame a b \<Longrightarrow> registryFrame b c \<Longrightarrow> registryFrame a c"
  unfolding registryFrame_def
proof (elim exE)
  fix ndm c1 iim n2i u ndm' c' iim' n2i' u'
  assume "b = a\<lparr>nodeDataMap := ndm, internalIdCounter := c1, internalIdMap := iim,
                 nodeToInternalIdMap := n2i, usedInternalIds := u\<rparr>"
    and "c = b\<lparr>nodeDataMap := ndm', internalIdCounter := c', internalIdMap := iim',
                 nodeToInternalIdMap := n2i', usedInternalIds := u'\<rparr>"
  then have "c = a\<lparr>nodeDataMap := ndm', internalIdCounter := c', internalIdMap := iim',
                 nodeToInternalIdMap := n2i', usedInternalIds := u'\<rparr>" by simp
  then show "\<exists>ndm c2 iim n2i u.
        c = a\<lparr>nodeDataMap := ndm, internalIdCounter := c2, internalIdMap := iim,
                  nodeToInternalIdMap := n2i, usedInternalIds := u\<rparr>" by blast
qed

lemma claimInternalId_state:
  assumes "claimInternalId n tv = Inr (x, n1, tv1)"
  shows "\<exists>c. tv1 = tv\<lparr>internalIdCounter := c, usedInternalIds := insert x (usedInternalIds tv)\<rparr>"
  using claimInternalId_result [OF assms] by blast

lemma registryFrame_claim:
  assumes "claimInternalId n tv = Inr (x, n1, tv1)"
  shows "registryFrame tv (indexNode k x a tv1)"
proof -
  from claimInternalId_state [OF assms] obtain c where
    "tv1 = tv\<lparr>internalIdCounter := c, usedInternalIds := insert x (usedInternalIds tv)\<rparr>"
    by blast
  then have "indexNode k x a tv1 =
      tv\<lparr>nodeDataMap := (nodeDataMap tv)(k \<mapsto> a), internalIdCounter := c,
         internalIdMap := (internalIdMap tv)(x \<mapsto> a),
         nodeToInternalIdMap := (nodeToInternalIdMap tv)(a \<mapsto> x),
         usedInternalIds := insert x (usedInternalIds tv)\<rparr>"
    by (simp add: indexNode_def)
  then show ?thesis unfolding registryFrame_def by blast
qed

lemma forestNodes_setChildren:
  "forestNodes ((if childrenOf n \<noteq> [] then setProp n1 ''children'' (JArr cs) else n1) # ns')
   = (if childrenOf n \<noteq> [] then setProp n1 ''children'' (JArr cs) else n1)
     # forestNodes (if childrenOf n \<noteq> [] then cs else childrenOf n1) @ forestNodes ns'"
  by (simp add: forestNodes_Cons)

lemma mapNodes_frame:
  assumes "mapNodes ns tv = Inr (res, tv')"
  shows "registryFrame tv tv' \<and> usedInternalIds tv \<subseteq> usedInternalIds tv'
         \<and> internalIdCounter tv \<le> internalIdCounter tv'
         \<and> map addr res = map addr ns
         \<and> map addr (forestNodes res) = map addr (forestNodes ns)"
proof (rule mapNodes_rule [OF assms])
  fix tv
  show "registryFrame tv tv \<and> usedInternalIds tv \<subseteq> usedInternalIds tv
         \<and> internalIdCounter tv \<le> internalIdCounter tv
         \<and> map addr [] = map addr []
         \<and> map addr (forestNodes []) = map addr (forestNodes [])"
    by (simp add: registryFrame_refl)
next
  fix n ns tv x n1 tv1 cs tv3 ns' tv'
  let ?tv2 = "indexNode (nodeIdOf n) x (addr n) tv1"
  let ?n2 = "if childrenOf n \<noteq> [] then setProp n1 ''children'' (JArr cs) else n1"
  assume c: "claimInternalId n tv = Inr (x, n1, tv1)"
    and k: "registryFrame ?tv2 tv3 \<and> usedInternalIds ?tv2 \<subseteq> usedInternalIds tv3
         \<and> internalIdCounter ?tv2 \<le> internalIdCounter tv3
         \<and> map addr cs = map addr (childrenOf n)
         \<and> map addr (forestNodes cs) = map addr (forestNodes (childrenOf n))"
    and r: "registryFrame tv3 tv' \<and> usedInternalIds tv3 \<subseteq> usedInternalIds tv'
         \<and> internalIdCounter tv3 \<le> internalIdCounter tv'
         \<and> map addr ns' = map addr ns
         \<and> map addr (forestNodes ns') = map addr (forestNodes ns)"
  note cr = claimInternalId_result [OF c]
  from claimInternalId_state [OF c] obtain c1 where
    tv1: "tv1 = tv\<lparr>internalIdCounter := c1, usedInternalIds := insert x (usedInternalIds tv)\<rparr>"
    by blast
  have f: "registryFrame tv tv'"
    using registryFrame_trans [OF registryFrame_trans [OF registryFrame_claim [OF c]]] k r by blast
  have u: "usedInternalIds tv \<subseteq> usedInternalIds tv'"
    using k r tv1 by (auto simp: indexNode_def)
  have cnt: "internalIdCounter tv \<le> internalIdCounter tv'"
    using k r cr by (simp add: indexNode_def)
  have a2: "addr ?n2 = addr n" using cr by simp
  have kids: "childrenOf ?n2 = cs"
  proof (cases "childrenOf n = []")
    case True
    then have "cs = []" using k by simp
    then show ?thesis using True cr by simp
  next
    case False
    then show ?thesis by simp
  qed
  have "forestNodes (?n2 # ns') = ?n2 # forestNodes cs @ forestNodes ns'"
    by (subst forestNodes_Cons) (simp only: kids)
  then have fa: "map addr (forestNodes (?n2 # ns')) = map addr (forestNodes (n # ns))"
    using a2 k r by (simp add: forestNodes_Cons [of n ns])
  show "registryFrame tv tv' \<and> usedInternalIds tv \<subseteq> usedInternalIds tv'
         \<and> internalIdCounter tv \<le> internalIdCounter tv'
         \<and> map addr (?n2 # ns') = map addr (n # ns)
         \<and> map addr (forestNodes (?n2 # ns')) = map addr (forestNodes (n # ns))"
    using f u cnt a2 r fa by simp
qed


lemma claimInternalId_fresh_key:
  assumes c: "claimInternalId n tv = Inr (y, n1, tv1)"
      and x: "x \<in> usedInternalIds tv"
      and m: "internalIdMap tv x \<noteq> None \<or> getProp n ''_internalId'' \<noteq> x"
  shows "y \<noteq> x"
  using claimInternalId_result [OF c] x m by auto

lemma mapNodes_stable:
  assumes "mapNodes ns tv = Inr (res, tv')"
  shows "\<forall>x a. internalIdMap tv x = Some a \<and> x \<in> usedInternalIds tv
               \<longrightarrow> internalIdMap tv' x = Some a \<and> x \<in> usedInternalIds tv'"
proof (rule mapNodes_rule [OF assms])
  fix tv
  show "\<forall>x a. internalIdMap tv x = Some a \<and> x \<in> usedInternalIds tv
               \<longrightarrow> internalIdMap tv x = Some a \<and> x \<in> usedInternalIds tv" by simp
next
  fix n ns tv y n1 tv1 cs tv3 ns' tv'
  let ?tv2 = "indexNode (nodeIdOf n) y (addr n) tv1"
  assume c: "claimInternalId n tv = Inr (y, n1, tv1)"
    and k: "\<forall>x a. internalIdMap ?tv2 x = Some a \<and> x \<in> usedInternalIds ?tv2
               \<longrightarrow> internalIdMap tv3 x = Some a \<and> x \<in> usedInternalIds tv3"
    and r: "\<forall>x a. internalIdMap tv3 x = Some a \<and> x \<in> usedInternalIds tv3
               \<longrightarrow> internalIdMap tv' x = Some a \<and> x \<in> usedInternalIds tv'"
  from claimInternalId_state [OF c] obtain c1 where
    tv1: "tv1 = tv\<lparr>internalIdCounter := c1, usedInternalIds := insert y (usedInternalIds tv)\<rparr>"
    by blast
  show "\<forall>x a. internalIdMap tv x = Some a \<and> x \<in> usedInternalIds tv
               \<longrightarrow> internalIdMap tv' x = Some a \<and> x \<in> usedInternalIds tv'"
  proof (intro allI impI)
    fix x a assume h: "internalIdMap tv x = Some a \<and> x \<in> usedInternalIds tv"
    then have "y \<noteq> x" using claimInternalId_fresh_key [OF c] by auto
    then have "internalIdMap ?tv2 x = Some a \<and> x \<in> usedInternalIds ?tv2"
      using h tv1 by (simp add: indexNode_def)
    with k r show "internalIdMap tv' x = Some a \<and> x \<in> usedInternalIds tv'" by blast
  qed
qed

lemma mapNodes_absent:
  assumes "mapNodes ns tv = Inr (res, tv')"
  shows "\<forall>x. internalIdMap tv x = None \<and> x \<in> usedInternalIds tv
             \<and> (\<forall>m \<in> set (forestNodes ns). getProp m ''_internalId'' \<noteq> x)
             \<longrightarrow> internalIdMap tv' x = None \<and> x \<in> usedInternalIds tv'"
proof (rule mapNodes_rule [OF assms])
  fix tv
  show "\<forall>x. internalIdMap tv x = None \<and> x \<in> usedInternalIds tv
             \<and> (\<forall>m \<in> set (forestNodes []). getProp m ''_internalId'' \<noteq> x)
             \<longrightarrow> internalIdMap tv x = None \<and> x \<in> usedInternalIds tv" by simp
next
  fix n ns tv y n1 tv1 cs tv3 ns' tv'
  let ?tv2 = "indexNode (nodeIdOf n) y (addr n) tv1"
  assume c: "claimInternalId n tv = Inr (y, n1, tv1)"
    and k: "\<forall>x. internalIdMap ?tv2 x = None \<and> x \<in> usedInternalIds ?tv2
             \<and> (\<forall>m \<in> set (forestNodes (childrenOf n)). getProp m ''_internalId'' \<noteq> x)
             \<longrightarrow> internalIdMap tv3 x = None \<and> x \<in> usedInternalIds tv3"
    and r: "\<forall>x. internalIdMap tv3 x = None \<and> x \<in> usedInternalIds tv3
             \<and> (\<forall>m \<in> set (forestNodes ns). getProp m ''_internalId'' \<noteq> x)
             \<longrightarrow> internalIdMap tv' x = None \<and> x \<in> usedInternalIds tv'"
  from claimInternalId_state [OF c] obtain c1 where
    tv1: "tv1 = tv\<lparr>internalIdCounter := c1, usedInternalIds := insert y (usedInternalIds tv)\<rparr>"
    by blast
  show "\<forall>x. internalIdMap tv x = None \<and> x \<in> usedInternalIds tv
             \<and> (\<forall>m \<in> set (forestNodes (n # ns)). getProp m ''_internalId'' \<noteq> x)
             \<longrightarrow> internalIdMap tv' x = None \<and> x \<in> usedInternalIds tv'"
  proof (intro allI impI)
    fix x
    assume h: "internalIdMap tv x = None \<and> x \<in> usedInternalIds tv
             \<and> (\<forall>m \<in> set (forestNodes (n # ns)). getProp m ''_internalId'' \<noteq> x)"
    then have nx: "getProp n ''_internalId'' \<noteq> x"
      and kx: "\<forall>m \<in> set (forestNodes (childrenOf n)). getProp m ''_internalId'' \<noteq> x"
      and rx: "\<forall>m \<in> set (forestNodes ns). getProp m ''_internalId'' \<noteq> x"
      by (simp_all add: forestNodes_Cons)
    have "y \<noteq> x" using claimInternalId_fresh_key [OF c] h nx by auto
    then have "internalIdMap ?tv2 x = None \<and> x \<in> usedInternalIds ?tv2"
      using h tv1 by (simp add: indexNode_def)
    with k kx have "internalIdMap tv3 x = None \<and> x \<in> usedInternalIds tv3" by blast
    with r rx show "internalIdMap tv' x = None \<and> x \<in> usedInternalIds tv'" by blast
  qed
qed

lemma ran_upd_subset: "ran (m(k \<mapsto> v)) \<subseteq> insert v (ran m)"
  by (auto simp: ran_def)

lemma mapNodes_ranges:
  assumes "mapNodes ns tv = Inr (res, tv')"
  shows "ran (nodeDataMap tv') \<subseteq> ran (nodeDataMap tv) \<union> addr ` set (forestNodes ns)
       \<and> ran (internalIdMap tv') \<subseteq> ran (internalIdMap tv) \<union> addr ` set (forestNodes ns)
       \<and> dom (nodeToInternalIdMap tv') \<subseteq> dom (nodeToInternalIdMap tv) \<union> addr ` set (forestNodes ns)"
proof (rule mapNodes_rule [OF assms])
  fix tv
  show "ran (nodeDataMap tv) \<subseteq> ran (nodeDataMap tv) \<union> addr ` set (forestNodes [])
       \<and> ran (internalIdMap tv) \<subseteq> ran (internalIdMap tv) \<union> addr ` set (forestNodes [])
       \<and> dom (nodeToInternalIdMap tv) \<subseteq> dom (nodeToInternalIdMap tv) \<union> addr ` set (forestNodes [])"
    by simp
next
  fix n ns tv y n1 tv1 cs tv3 ns' tv'
  let ?tv2 = "indexNode (nodeIdOf n) y (addr n) tv1"
  assume c: "claimInternalId n tv = Inr (y, n1, tv1)"
    and k: "ran (nodeDataMap tv3) \<subseteq> ran (nodeDataMap ?tv2) \<union> addr ` set (forestNodes (childrenOf n))
       \<and> ran (internalIdMap tv3) \<subseteq> ran (internalIdMap ?tv2) \<union> addr ` set (forestNodes (childrenOf n))
       \<and> dom (nodeToInternalIdMap tv3) \<subseteq> dom (nodeToInternalIdMap ?tv2) \<union> addr ` set (forestNodes (childrenOf n))"
    and r: "ran (nodeDataMap tv') \<subseteq> ran (nodeDataMap tv3) \<union> addr ` set (forestNodes ns)
       \<and> ran (internalIdMap tv') \<subseteq> ran (internalIdMap tv3) \<union> addr ` set (forestNodes ns)
       \<and> dom (nodeToInternalIdMap tv') \<subseteq> dom (nodeToInternalIdMap tv3) \<union> addr ` set (forestNodes ns)"
  from claimInternalId_state [OF c] obtain c1 where
    tv1: "tv1 = tv\<lparr>internalIdCounter := c1, usedInternalIds := insert y (usedInternalIds tv)\<rparr>"
    by blast
  have a: "ran (nodeDataMap ?tv2) \<subseteq> insert (addr n) (ran (nodeDataMap tv))"
    "ran (internalIdMap ?tv2) \<subseteq> insert (addr n) (ran (internalIdMap tv))"
    "dom (nodeToInternalIdMap ?tv2) \<subseteq> insert (addr n) (dom (nodeToInternalIdMap tv))"
    using ran_upd_subset [of "nodeDataMap tv" "nodeIdOf n" "addr n"]
      ran_upd_subset [of "internalIdMap tv" y "addr n"]
    by (simp_all add: indexNode_def tv1)
  have fs: "addr ` set (forestNodes (n # ns))
      = insert (addr n) (addr ` set (forestNodes (childrenOf n)) \<union> addr ` set (forestNodes ns))"
    by (simp add: forestNodes_Cons image_Un)
  show "ran (nodeDataMap tv') \<subseteq> ran (nodeDataMap tv) \<union> addr ` set (forestNodes (n # ns))
       \<and> ran (internalIdMap tv') \<subseteq> ran (internalIdMap tv) \<union> addr ` set (forestNodes (n # ns))
       \<and> dom (nodeToInternalIdMap tv') \<subseteq> dom (nodeToInternalIdMap tv) \<union> addr ` set (forestNodes (n # ns))"
    unfolding fs using a k r by blast
qed

section \<open>Properties of the tree mutator: insertion\<close>

lemma mapNodes_append:
  "mapNodes (xs @ ys) tv =
     (case mapNodes xs tv of
        Inl e \<Rightarrow> Inl e
      | Inr (xs', tv1) \<Rightarrow>
          (case mapNodes ys tv1 of
             Inl e \<Rightarrow> Inl e
           | Inr (ys', tv2) \<Rightarrow> Inr (xs' @ ys', tv2)))"
proof (induction xs arbitrary: tv)
  case Nil
  show ?case by (auto simp: mapNodes.simps(1) split: sum.splits)
next
  case (Cons n xs)
  show ?case
    by (simp add: mapNodes.simps(2) Cons Let_def split: sum.splits prod.splits)
qed

lemma mapNodes_adopt_head:
  assumes run: "mapNodes (n # ns) tv = Inr (res, tv')"
      and t: "truthy (getProp n ''_internalId'')"
      and free: "internalIdMap tv (getProp n ''_internalId'') = None"
  shows "internalIdMap tv' (getProp n ''_internalId'') = Some (addr n)
       \<and> getProp n ''_internalId'' \<in> usedInternalIds tv'
       \<and> (\<exists>n2 ns'. res = n2 # ns' \<and> addr n2 = addr n
             \<and> map addr ns' = map addr ns
             \<and> (\<forall>k. k \<noteq> ''children'' \<longrightarrow> getProp n2 k = getProp n k))"
proof -
  let ?x = "getProp n ''_internalId''"
  from mapNodes_Cons_result [OF run] obtain y n1 tv1 cs tv3 ns' where
    c: "claimInternalId n tv = Inr (y, n1, tv1)"
    and k: "mapNodes (childrenOf n) (indexNode (nodeIdOf n) y (addr n) tv1) = Inr (cs, tv3)"
    and r: "mapNodes ns tv3 = Inr (ns', tv')"
    and res: "res = (if childrenOf n \<noteq> [] then setProp n1 ''children'' (JArr cs) else n1) # ns'"
    by blast
  from c t free have y: "y = ?x" and n1: "n1 = n"
    and tv1: "tv1 = tv\<lparr>usedInternalIds := insert ?x (usedInternalIds tv)\<rparr>"
    by (auto simp: claimInternalId_def Let_def)
  let ?tv2 = "indexNode (nodeIdOf n) y (addr n) tv1"
  have "internalIdMap ?tv2 ?x = Some (addr n) \<and> ?x \<in> usedInternalIds ?tv2"
    by (simp add: indexNode_def y tv1)
  with mapNodes_stable [OF k] have "internalIdMap tv3 ?x = Some (addr n) \<and> ?x \<in> usedInternalIds tv3"
    by blast
  with mapNodes_stable [OF r] have a: "internalIdMap tv' ?x = Some (addr n) \<and> ?x \<in> usedInternalIds tv'"
    by blast
  let ?n2 = "if childrenOf n \<noteq> [] then setProp n1 ''children'' (JArr cs) else n1"
  have "addr ?n2 = addr n" "\<forall>k. k \<noteq> ''children'' \<longrightarrow> getProp ?n2 k = getProp n k"
    by (simp_all add: n1 getProp_setProp)
  moreover have "map addr ns' = map addr ns" using mapNodes_frame [OF r] by simp
  ultimately show ?thesis using a res by blast
qed

lemma buildNodeDataMap_result:
  assumes "buildNodeDataMap tv = Inr tv'"
  shows "\<exists>res tvm. mapNodes (data tv)
             (tv\<lparr>nodeDataMap := Map.empty, internalIdMap := Map.empty,
                 nodeToInternalIdMap := Map.empty\<rparr>) = Inr (res, tvm)
           \<and> tv' = tvm\<lparr>data := res\<rparr>"
  using assms by (auto simp: buildNodeDataMap_def split: sum.splits)

lemma refreshTree_result:
  assumes "refreshTree tv = Inr tv'"
  shows "\<exists>tv1 tv2. applyFilter tv = Inr tv1 \<and> buildNodeDataMap tv1 = Inr tv2
           \<and> updateTreeContent tv2 = Inr tv'"
  using assms by (auto simp: refreshTree_def split: sum.splits)

text \<open>What a rebuild after a change of the forest leaves in the state.\<close>

lemma refreshTree_build:
  assumes "refreshTree tv = Inr tv'"
  shows "\<exists>res tvm fd h. mapNodes (data tv)
             (tv\<lparr>filteredData := fd, nextAddr := h, nodeDataMap := Map.empty,
                 internalIdMap := Map.empty, nodeToInternalIdMap := Map.empty\<rparr>) = Inr (res, tvm)
           \<and> data tv' = res \<and> nodeDataMap tv' = nodeDataMap tvm
           \<and> internalIdMap tv' = internalIdMap tvm
           \<and> nodeToInternalIdMap tv' = nodeToInternalIdMap tvm
           \<and> usedInternalIds tv' = usedInternalIds tvm
           \<and> selectedNodes tv' = selectedNodes tv \<and> expandedNodes tv' = expandedNodes tv"
proof -
  from refreshTree_result [OF assms] obtain tv1 tv2 where
    f: "applyFilter tv = Inr tv1" and b: "buildNodeDataMap tv1 = Inr tv2"
    and u: "updateTreeContent tv2 = Inr tv'" by blast
  from applyFilter_frame [OF f] obtain fd h where
    tv1: "tv1 = tv\<lparr>filteredData := fd, nextAddr := h\<rparr>" by blast
  from buildNodeDataMap_result [OF b] obtain res tvm where
    m: "mapNodes (data tv1) (tv1\<lparr>nodeDataMap := Map.empty, internalIdMap := Map.empty,
                 nodeToInternalIdMap := Map.empty\<rparr>) = Inr (res, tvm)"
    and tv2: "tv2 = tvm\<lparr>data := res\<rparr>" by blast
  from updateTreeContent_frame [OF u] obtain t c p where
    tv': "tv' = tv2\<lparr>totalPages := t, currentPage := c, paginatedData := p\<rparr>" by blast
  from mapNodes_frame [OF m] have "registryFrame (tv1\<lparr>nodeDataMap := Map.empty,
        internalIdMap := Map.empty, nodeToInternalIdMap := Map.empty\<rparr>) tvm" by simp
  then have sel: "selectedNodes tvm = selectedNodes tv" "expandedNodes tvm = expandedNodes tv"
    by (auto simp: registryFrame_def tv1)
  have "mapNodes (data tv)
             (tv\<lparr>filteredData := fd, nextAddr := h, nodeDataMap := Map.empty,
                 internalIdMap := Map.empty, nodeToInternalIdMap := Map.empty\<rparr>) = Inr (res, tvm)"
    using m by (simp add: tv1)
  then show ?thesis using sel by (auto simp: tv' tv2)
qed


lemma addNode_root_aux:
  assumes g: "generateInternalId (tv\<lparr>nextAddr := Suc (nextAddr tv)\<rparr>) = Inr (x, tv1)"
      and root: "isRootSentinel p"
      and run: "addNode p (Some ups) pos tv = Inr (r, tv')"
  shows "r = Some x \<and> x \<notin> usedInternalIds tv \<and> x \<in> usedInternalIds tv'
       \<and> map addr (data tv') = (if pos = ''first'' then nextAddr tv # map addr (data tv)
                                 else map addr (data tv) @ [nextAddr tv])
       \<and> (carriedIdsRegistered tv \<longrightarrow>
            internalIdMap tv' x = Some (nextAddr tv)
            \<and> (\<exists>n' rest. data tv' = (if pos = ''first'' then n' # rest else rest @ [n'])
                  \<and> map addr rest = map addr (data tv)
                  \<and> addr n' = nextAddr tv \<and> getProp n' ''_internalId'' = x
                  \<and> (\<forall>k. k \<noteq> ''children'' \<and> k \<noteq> ''_internalId'' \<longrightarrow>
                        getProp n' k = getProp (Node (nextAddr tv) ups) k)))"
proof -
  let ?a = "nextAddr tv"
  let ?new = "setProp (Node ?a ups) ''_internalId'' x"
  note gr = generateInternalId_result [OF g]
  then have xu: "x \<notin> usedInternalIds tv" and xt: "truthy x" by simp_all
  from gr obtain c where
    tv1: "tv1 = tv\<lparr>nextAddr := Suc ?a, internalIdCounter := c,
                    usedInternalIds := insert x (usedInternalIds tv)\<rparr>"
    by (metis treeview.select_convs(16) treeview.surjective treeview.update_convs(13)
        treeview.update_convs(16) treeview.update_convs(17))
  have carried: "getProp ?new ''_internalId'' = x" and an: "addr ?new = ?a"
    and other: "\<And>k. k \<noteq> ''_internalId'' \<Longrightarrow> getProp ?new k = getProp (Node ?a ups) k"
    by (simp_all add: getProp_setProp)
  let ?tvA = "addToRootLevel ?new pos tv1"
  from run g root have rf: "refreshTree ?tvA = Inr tv'" and r: "r = Some x"
    by (auto simp: addNode_def Let_def split: sum.splits)
  from refreshTree_build [OF rf] obtain res tvm fd h where
    m: "mapNodes (data ?tvA)
          (?tvA\<lparr>filteredData := fd, nextAddr := h, nodeDataMap := Map.empty,
                internalIdMap := Map.empty, nodeToInternalIdMap := Map.empty\<rparr>) = Inr (res, tvm)"
    and d: "data tv' = res" and im: "internalIdMap tv' = internalIdMap tvm"
    and us: "usedInternalIds tv' = usedInternalIds tvm" by blast
  let ?tvc = "?tvA\<lparr>filteredData := fd, nextAddr := h, nodeDataMap := Map.empty,
                internalIdMap := Map.empty, nodeToInternalIdMap := Map.empty\<rparr>"
  have uc: "usedInternalIds ?tvc = insert x (usedInternalIds tv)"
    and ic: "internalIdMap ?tvc = Map.empty"
    by (simp_all add: addToRootLevel_def tv1)
  have dA: "data ?tvA = (if pos = ''first'' then ?new # data tv else data tv @ [?new])"
    by (simp add: addToRootLevel_def tv1)
  from mapNodes_frame [OF m] have mono: "usedInternalIds ?tvc \<subseteq> usedInternalIds tvm"
    and addrs: "map addr res = map addr (data ?tvA)" by simp_all
  have xin: "x \<in> usedInternalIds tv'" using mono uc us by auto
  have shape: "map addr (data tv') = (if pos = ''first'' then ?a # map addr (data tv)
                                 else map addr (data tv) @ [?a])"
    using addrs d dA an by simp
  have inv: "internalIdMap tv' x = Some ?a
            \<and> (\<exists>n' rest. data tv' = (if pos = ''first'' then n' # rest else rest @ [n'])
                  \<and> map addr rest = map addr (data tv)
                  \<and> addr n' = ?a \<and> getProp n' ''_internalId'' = x
                  \<and> (\<forall>k. k \<noteq> ''children'' \<and> k \<noteq> ''_internalId'' \<longrightarrow>
                        getProp n' k = getProp (Node ?a ups) k))"
    if reg: "carriedIdsRegistered tv"
  proof (cases "pos = ''first''")
    case True
    then have m1: "mapNodes (?new # data tv) ?tvc = Inr (res, tvm)" using m dA by simp
    from mapNodes_adopt_head [OF m1] xt carried ic
    obtain n2 ns' where "internalIdMap tvm x = Some ?a" "res = n2 # ns'" "addr n2 = ?a"
      "map addr ns' = map addr (data tv)" "\<forall>k. k \<noteq> ''children'' \<longrightarrow> getProp n2 k = getProp ?new k"
      by (auto simp: an)
    then show ?thesis using True d im carried other by auto
  next
    case False
    then have m1: "mapNodes (data tv @ [?new]) ?tvc = Inr (res, tvm)" using m dA by simp
    then obtain F' tvF ys' where mF: "mapNodes (data tv) ?tvc = Inr (F', tvF)"
      and mN: "mapNodes [?new] tvF = Inr (ys', tvm)" and rs: "res = F' @ ys'"
      by (auto simp: mapNodes_append split: sum.splits)
    have "\<forall>m \<in> set (forestNodes (data tv)). getProp m ''_internalId'' \<noteq> x"
      using reg xu xt by (auto simp: carriedIdsRegistered_def list_all_iff)
    with mapNodes_absent [OF mF] ic uc have free: "internalIdMap tvF x = None" by simp
    from mapNodes_adopt_head [OF mN] xt carried free
    obtain n2 ns' where "internalIdMap tvm x = Some ?a" "ys' = n2 # ns'" "addr n2 = ?a"
      "map addr ns' = map addr []" "\<forall>k. k \<noteq> ''children'' \<longrightarrow> getProp n2 k = getProp ?new k"
      by (auto simp: an)
    moreover have "map addr F' = map addr (data tv)" using mapNodes_frame [OF mF] by simp
    ultimately show ?thesis using False d im rs carried other by auto
  qed
  from r xu xin shape inv show ?thesis by blast
qed


text \<open>
  Claim C10. Let the allocator return the id \<open>x\<close> for the new node. With a parent id that is
  not 0, \<^verbatim>\<open>null\<close> or \<^verbatim>\<open>undefined\<close> and not in the internal-id index, \<^verbatim>\<open>addNode\<close> returns
  \<^verbatim>\<open>null\<close>; the forest, the filtered forest and the three indexes are unchanged, and \<open>x\<close> stays
  issued (the counter has advanced). With 0, \<^verbatim>\<open>null\<close> or \<^verbatim>\<open>undefined\<close> as the parent id, a call
  that returns gives back \<open>x\<close>, and the root sequence is the old one with the new object put
  first (position \<^verbatim>\<open>first\<close>) or last (any other position); when the ids carried by the forest
  are all issued ones, \<open>x\<close> resolves to the new object in the internal-id index, and this
  root carries \<open>x\<close> and the properties of the supplied record.
\<close>

theorem addNode_root_or_unknown_parent:
  assumes "generateInternalId (tv\<lparr>nextAddr := Suc (nextAddr tv)\<rparr>) = Inr (x, tv1)"
  shows "(p \<noteq> JNum 0 \<and> p \<noteq> JNull \<and> p \<noteq> JUndefined \<and> internalIdMap tv p = None \<longrightarrow>
            addNode p (Some ups) pos tv = Inr (None, tv1)
            \<and> data tv1 = data tv \<and> filteredData tv1 = filteredData tv
            \<and> nodeDataMap tv1 = nodeDataMap tv \<and> internalIdMap tv1 = internalIdMap tv
            \<and> nodeToInternalIdMap tv1 = nodeToInternalIdMap tv
            \<and> x \<notin> usedInternalIds tv \<and> usedInternalIds tv1 = insert x (usedInternalIds tv)
            \<and> internalIdCounter tv < internalIdCounter tv1)
       \<and> (p = JNum 0 \<or> p = JNull \<or> p = JUndefined \<longrightarrow>
            (\<forall>r tv'. addNode p (Some ups) pos tv = Inr (r, tv') \<longrightarrow>
               r = Some x \<and> x \<notin> usedInternalIds tv \<and> x \<in> usedInternalIds tv'
               \<and> map addr (data tv') = (if pos = ''first'' then nextAddr tv # map addr (data tv)
                                         else map addr (data tv) @ [nextAddr tv])
               \<and> (carriedIdsRegistered tv \<longrightarrow>
                    internalIdMap tv' x = Some (nextAddr tv)
                    \<and> (\<exists>n' rest. data tv' = (if pos = ''first'' then n' # rest else rest @ [n'])
                          \<and> map addr rest = map addr (data tv)
                          \<and> addr n' = nextAddr tv \<and> getProp n' ''_internalId'' = x
                          \<and> (\<forall>k. k \<noteq> ''children'' \<and> k \<noteq> ''_internalId'' \<longrightarrow>
                                getProp n' k = getProp (Node (nextAddr tv) ups) k)))))"
proof (intro conjI impI allI)
  note gr = generateInternalId_result [OF assms]
  assume h: "p \<noteq> JNum 0 \<and> p \<noteq> JNull \<and> p \<noteq> JUndefined \<and> internalIdMap tv p = None"
  from gr obtain c where
    tv1: "tv1 = tv\<lparr>nextAddr := Suc (nextAddr tv), internalIdCounter := c,
                    usedInternalIds := insert x (usedInternalIds tv)\<rparr>"
    by (metis treeview.select_convs(16) treeview.surjective treeview.update_convs(13)
        treeview.update_convs(16) treeview.update_convs(17))
  show "addNode p (Some ups) pos tv = Inr (None, tv1)"
    using h assms by (simp add: addNode_def isRootSentinel_def Let_def tv1)
  show "data tv1 = data tv" "filteredData tv1 = filteredData tv"
    "nodeDataMap tv1 = nodeDataMap tv" "internalIdMap tv1 = internalIdMap tv"
    "nodeToInternalIdMap tv1 = nodeToInternalIdMap tv"
    "usedInternalIds tv1 = insert x (usedInternalIds tv)"
    by (simp_all add: tv1)
  show "x \<notin> usedInternalIds tv" "internalIdCounter tv < internalIdCounter tv1"
    using gr by simp_all
next
  fix r tv'
  assume s: "p = JNum 0 \<or> p = JNull \<or> p = JUndefined"
    and run: "addNode p (Some ups) pos tv = Inr (r, tv')"
  from s have root: "isRootSentinel p" by (simp add: isRootSentinel_def)
  note aux = addNode_root_aux [OF assms root run]
  show "r = Some x" "x \<notin> usedInternalIds tv" "x \<in> usedInternalIds tv'"
    "map addr (data tv') = (if pos = ''first'' then nextAddr tv # map addr (data tv)
                                         else map addr (data tv) @ [nextAddr tv])"
    using aux by blast+
  assume reg: "carriedIdsRegistered tv"
  show "internalIdMap tv' x = Some (nextAddr tv)"
    "\<exists>n' rest. data tv' = (if pos = ''first'' then n' # rest else rest @ [n'])
                          \<and> map addr rest = map addr (data tv)
                          \<and> addr n' = nextAddr tv \<and> getProp n' ''_internalId'' = x
                          \<and> (\<forall>k. k \<noteq> ''children'' \<and> k \<noteq> ''_internalId'' \<longrightarrow>
                                getProp n' k = getProp (Node (nextAddr tv) ups) k)"
    using aux reg by blast+
qed

lemma exampleBuilt_fields:
  "data exampleBuilt = [builtRoot]" "searchTerm exampleBuilt = []" "pageSize exampleBuilt = 10"
  "showPagination exampleBuilt" "filteredData exampleBuilt = None"
  "currentPage exampleBuilt = 1" "totalPages exampleBuilt = 1"
  "usedInternalIds exampleBuilt
     = {JStr ''2_1700000000000_k3j2h1g0f'', JStr ''1_1700000000000_k3j2h1g0f''}"
  "internalIdCounter exampleBuilt = 2" "nextAddr exampleBuilt = 200"
  "selectedNodes exampleBuilt = {}" "expandedNodes exampleBuilt = {}"
  "displayField exampleBuilt = ''name''"
  "clock exampleBuilt = (\<lambda>c. 1700000000000)" "random exampleBuilt = (\<lambda>c. ''k3j2h1g0f'')"
  "paginatedData exampleBuilt = [builtRoot]"
  using exampleBuilt_facts by simp_all

lemma exampleBuilt_generate:
  "generateInternalId (exampleBuilt\<lparr>nextAddr := Suc (nextAddr exampleBuilt)\<rparr>)
     = Inr (JStr ''3_1700000000000_k3j2h1g0f'',
            exampleBuilt\<lparr>nextAddr := 201, internalIdCounter := 3,
              usedInternalIds := {JStr ''3_1700000000000_k3j2h1g0f'',
                                  JStr ''2_1700000000000_k3j2h1g0f'',
                                  JStr ''1_1700000000000_k3j2h1g0f''}\<rparr>)"
  by (simp add: generateInternalId_def generateLoop.simps candidateId_def Let_def digitChar_def
        exampleBuilt_fields)

lemma exampleBuilt_generate':
  "generateInternalId (exampleBuilt\<lparr>nextAddr := 201\<rparr>)
     = Inr (JStr ''3_1700000000000_k3j2h1g0f'',
            exampleBuilt\<lparr>nextAddr := 201, internalIdCounter := 3,
              usedInternalIds := {JStr ''3_1700000000000_k3j2h1g0f'',
                                  JStr ''2_1700000000000_k3j2h1g0f'',
                                  JStr ''1_1700000000000_k3j2h1g0f''}\<rparr>)"
  using exampleBuilt_generate by (simp add: exampleBuilt_fields)

lemma exampleBuilt_registered: "carriedIdsRegistered exampleBuilt"
  by (simp add: carriedIdsRegistered_def exampleBuilt_fields forestNodes_built)
     (simp add: builtRoot_def builtChild_def getProp_def)

lemma exampleBuilt_addRoot:
  "(case addNode (JNum 0) (Some [(''name'', JStr ''X'')]) ''first'' exampleBuilt of
      Inl e \<Rightarrow> False | Inr (r, tv') \<Rightarrow> True)"
  by (simp add: exampleBuilt_fields addNode_def exampleBuilt_generate' isRootSentinel_def addToRootLevel_def
        refreshTree_def applyFilter_def filterNodes.simps buildNodeDataMap_def mapNodes.simps
        claimInternalId_def indexNode_def nodeIdOf_def generateNodeId_def getProp_def setProp_def
        isArrayIndex_def isDigit_def childrenOf_def hasChildren_def childArray_def
        updateTreeContent_def getPaginatedData_def
        calculatePagination_def filteredView_def jsSlice_def ceilDiv_def Let_def
        builtRoot_def builtChild_def quoteJSON_def escapeChar_def isAlnum_def)

theorem addNode_root_or_unknown_parent_witness:
  "generateInternalId (exampleBuilt\<lparr>nextAddr := Suc (nextAddr exampleBuilt)\<rparr>)
     = Inr (JStr ''3_1700000000000_k3j2h1g0f'',
            exampleBuilt\<lparr>nextAddr := 201, internalIdCounter := 3,
              usedInternalIds := {JStr ''3_1700000000000_k3j2h1g0f'',
                                  JStr ''2_1700000000000_k3j2h1g0f'',
                                  JStr ''1_1700000000000_k3j2h1g0f''}\<rparr>)
   \<and> internalIdMap exampleBuilt (JStr ''missing'') = None
   \<and> addNode (JStr ''missing'') (Some [(''name'', JStr ''X'')]) ''last'' exampleBuilt
       = Inr (None, exampleBuilt\<lparr>nextAddr := 201, internalIdCounter := 3,
              usedInternalIds := {JStr ''3_1700000000000_k3j2h1g0f'',
                                  JStr ''2_1700000000000_k3j2h1g0f'',
                                  JStr ''1_1700000000000_k3j2h1g0f''}\<rparr>)
   \<and> carriedIdsRegistered exampleBuilt
   \<and> (\<exists>tv'. addNode (JNum 0) (Some [(''name'', JStr ''X'')]) ''first'' exampleBuilt
               = Inr (Some (JStr ''3_1700000000000_k3j2h1g0f''), tv')
          \<and> map addr (data tv') = [200, 100]
          \<and> internalIdMap tv' (JStr ''3_1700000000000_k3j2h1g0f'') = Some 200)"
proof -
  let ?x = "JStr ''3_1700000000000_k3j2h1g0f''"
  note g = exampleBuilt_generate
  have m: "internalIdMap exampleBuilt (JStr ''missing'') = None"
    using exampleBuilt_facts by simp
  note t1 = addNode_root_or_unknown_parent
    [OF g, of "JStr ''missing''" "[(''name'', JStr ''X'')]" "''last''"]
  note t2 = addNode_root_or_unknown_parent
    [OF g, of "JNum 0" "[(''name'', JStr ''X'')]" "''first''"]
  have "JStr ''missing'' \<noteq> JNum 0 \<and> JStr ''missing'' \<noteq> JNull \<and> JStr ''missing'' \<noteq> JUndefined
        \<and> internalIdMap exampleBuilt (JStr ''missing'') = None" using m by simp
  note a = t1 [THEN conjunct1, THEN mp, OF this, THEN conjunct1]
  obtain r tv' where run: "addNode (JNum 0) (Some [(''name'', JStr ''X'')]) ''first'' exampleBuilt
               = Inr (r, tv')"
  proof (cases "addNode (JNum 0) (Some [(''name'', JStr ''X'')]) ''first'' exampleBuilt")
    case (Inl e)
    with exampleBuilt_addRoot show ?thesis by simp
  next
    case (Inr b)
    then show ?thesis using that by (cases b) simp
  qed
  have s: "JNum 0 = JNum 0 \<or> JNum 0 = JNull \<or> JNum 0 = JUndefined" by simp
  note big = t2 [THEN conjunct2, THEN mp, OF s, THEN spec, THEN spec, THEN mp, OF run]
  note r = big [THEN conjunct1]
  note sh = big [THEN conjunct2, THEN conjunct2, THEN conjunct2, THEN conjunct1]
  note rg = big [THEN conjunct2, THEN conjunct2, THEN conjunct2, THEN conjunct2, THEN mp,
      OF exampleBuilt_registered, THEN conjunct1]
  from sh have sh': "map addr (data tv') = [200, 100]"
    by (simp add: exampleBuilt_fields)
  from rg have im: "internalIdMap tv' ?x = Some 200"
    by (simp add: exampleBuilt_fields)
  have "addNode (JNum 0) (Some [(''name'', JStr ''X'')]) ''first'' exampleBuilt = Inr (Some ?x, tv')"
    using run r by simp
  then have e: "\<exists>tv'. addNode (JNum 0) (Some [(''name'', JStr ''X'')]) ''first'' exampleBuilt
               = Inr (Some ?x, tv')
          \<and> map addr (data tv') = [200, 100]
          \<and> internalIdMap tv' ?x = Some 200"
    using sh' im by (intro exI [of _ tv'] conjI)
  show ?thesis
    by (intro conjI) (rule g, rule m, rule a, rule exampleBuilt_registered, rule e)
qed

section \<open>Properties of the registry rebuild: rebuilding twice\<close>

text \<open>
  Claim C6 fails for a node without an identifier of its own. The first rebuild computes the
  natural key of the record \<^verbatim>\<open>{name: "A"}\<close> before it attaches the internal id to it, the
  second one after: the natural-key index holds the node under \<^verbatim>\<open>node_nameA\<close> after one
  rebuild and under \<^verbatim>\<open>node_nameAinter\<close>, and no longer under \<^verbatim>\<open>node_nameA\<close>, after two. The
  internal-id index and the node-to-internal-id index are the same after both.
\<close>

theorem rebuild_twice_natural_key:
  "(case buildNodeDataMap
           (initialView [bareNode] ''name'' 10 True 200 (\<lambda>c. 1700000000000) (\<lambda>c. ''k3j2h1g0f'')) of
      Inl e \<Rightarrow> False
    | Inr tv1 \<Rightarrow>
        nodeDataMap tv1 (JStr ''node_nameA'') = Some 100
      \<and> nodeDataMap tv1 (JStr ''node_nameAinter'') = None
      \<and> internalIdMap tv1 (JStr ''1_1700000000000_k3j2h1g0f'') = Some 100
      \<and> nodeToInternalIdMap tv1 100 = Some (JStr ''1_1700000000000_k3j2h1g0f'')
      \<and> data tv1 = [Node 100 [(''name'', JStr ''A''),
                               (''_internalId'', JStr ''1_1700000000000_k3j2h1g0f'')]]
      \<and> (case buildNodeDataMap tv1 of
            Inl e \<Rightarrow> False
          | Inr tv2 \<Rightarrow>
              nodeDataMap tv2 (JStr ''node_nameA'') = None
            \<and> nodeDataMap tv2 (JStr ''node_nameAinter'') = Some 100
            \<and> internalIdMap tv2 (JStr ''1_1700000000000_k3j2h1g0f'') = Some 100
            \<and> nodeToInternalIdMap tv2 100 = Some (JStr ''1_1700000000000_k3j2h1g0f'')
            \<and> data tv2 = data tv1))"
  by (simp add: bareNode_def eval_simps)

theorem rebuild_twice_natural_key_witness:
  "\<exists>tv1 tv2.
      buildNodeDataMap
        (initialView [bareNode] ''name'' 10 True 200 (\<lambda>c. 1700000000000) (\<lambda>c. ''k3j2h1g0f''))
        = Inr tv1
    \<and> buildNodeDataMap tv1 = Inr tv2
    \<and> nodeDataMap tv1 (JStr ''node_nameA'') = Some 100
    \<and> nodeDataMap tv2 (JStr ''node_nameA'') = None
    \<and> nodeDataMap tv2 \<noteq> nodeDataMap tv1"
proof -
  let ?tv0 = "initialView [bareNode] ''name'' 10 True 200 (\<lambda>c. 1700000000000) (\<lambda>c. ''k3j2h1g0f'')"
  note t = rebuild_twice_natural_key
  obtain tv1 where b1: "buildNodeDataMap ?tv0 = Inr tv1"
    using t by (cases "buildNodeDataMap ?tv0") simp_all
  have f1: "nodeDataMap tv1 (JStr ''node_nameA'') = Some 100
      \<and> (case buildNodeDataMap tv1 of Inl e \<Rightarrow> False
          | Inr tv2 \<Rightarrow> nodeDataMap tv2 (JStr ''node_nameA'') = None)"
    using t by (simp add: b1 split: sum.splits)
  obtain tv2 where b2: "buildNodeDataMap tv1 = Inr tv2"
    using f1 by (cases "buildNodeDataMap tv1") simp_all
  have f2: "nodeDataMap tv2 (JStr ''node_nameA'') = None" using f1 by (simp add: b2)
  have ne: "nodeDataMap tv2 \<noteq> nodeDataMap tv1"
  proof
    assume "nodeDataMap tv2 = nodeDataMap tv1"
    then have "nodeDataMap tv2 (JStr ''node_nameA'') = nodeDataMap tv1 (JStr ''node_nameA'')"
      by simp
    then show False using f1 f2 by simp
  qed
  show ?thesis
    by (intro exI [of _ tv1] exI [of _ tv2] conjI)
       (rule b1, rule b2, rule f1 [THEN conjunct1], rule f2, rule ne)
qed

section \<open>Properties of the tree mutator: removal\<close>

lemma removeFromNodes_Nil [simp]: "removeFromNodes [] a = ([], False)"
  by (simp add: removeFromNodes.simps)

lemma removeFromNodes_Cons:
  "removeFromNodes (n # ns) a =
     (if addr n = a then (ns, True)
      else case removeFromNodes (childrenOf n) a of
             (cs, True) \<Rightarrow> (setProp n ''children'' (JArr cs) # ns, True)
           | (cs, False) \<Rightarrow> (case removeFromNodes ns a of (ns', r) \<Rightarrow> (n # ns', r)))"
  by (cases "childrenOf n = []")
     (auto simp: removeFromNodes.simps(2) Let_def split: prod.splits)

lemma removeFromNodes_found:
  "removeFromNodes ns a = (ns', r) \<Longrightarrow>
     (r \<longleftrightarrow> (\<exists>m \<in> set (forestNodes ns). addr m = a)) \<and> (\<not> r \<longrightarrow> ns' = ns)"
proof (induction ns arbitrary: ns' r rule: forest_induct)
  case Nil
  then show ?case by simp
next
  case (Cons n ns)
  show ?case
  proof (cases "addr n = a")
    case True
    then show ?thesis using Cons.prems by (auto simp: removeFromNodes_Cons forestNodes_Cons)
  next
    case False
    obtain cs rc where c: "removeFromNodes (childrenOf n) a = (cs, rc)" by fastforce
    obtain ns2 rr where rr: "removeFromNodes ns a = (ns2, rr)" by fastforce
    from Cons.IH(1) [OF c] Cons.IH(2) [OF rr] Cons.prems False c rr
    show ?thesis
      by (cases rc) (auto simp: removeFromNodes_Cons forestNodes_Cons)
  qed
qed

lemma subtree_eq: "subtree n = n # forestNodes (childrenOf n)"
  by (subst subtree.simps) (simp add: forestNodes_def)

lemma forestNodes_subtree_closed:
  "t \<in> set (forestNodes ns) \<Longrightarrow> set (subtree t) \<subseteq> set (forestNodes ns)"
  using subtree_trans by (auto simp: forestNodes_def)

lemma find_Some_mem: "find P xs = Some x \<Longrightarrow> x \<in> set xs \<and> P x"
  by (induction xs) (auto split: if_splits)

lemma find_None_iff': "find P xs = None \<longleftrightarrow> (\<forall>x \<in> set xs. \<not> P x)"
  by (induction xs) auto

lemma cut_inner:
  "C \<subseteq> K - S \<Longrightarrow> S \<subseteq> K \<Longrightarrow> x \<notin> K \<Longrightarrow> K \<inter> R = {} \<Longrightarrow>
     insert x (C \<union> R) \<subseteq> insert x (K \<union> R) - S"
  by blast

lemma cut_outer:
  "R2 \<subseteq> R - S \<Longrightarrow> S \<subseteq> R \<Longrightarrow> x \<notin> R \<Longrightarrow> K \<inter> R = {} \<Longrightarrow>
     insert x (K \<union> R2) \<subseteq> insert x (K \<union> R) - S"
  by blast

lemma removeFromNodes_addrs:
  "distinct (map addr (forestNodes ns)) \<Longrightarrow> removeFromNodes ns a = (ns', True) \<Longrightarrow>
   find (\<lambda>n. addr n = a) (forestNodes ns) = Some t \<Longrightarrow>
     addr ` set (forestNodes ns') \<subseteq> addr ` set (forestNodes ns) - addr ` set (subtree t)
     \<and> (\<forall>m' \<in> set (forestNodes ns'). \<exists>m \<in> set (forestNodes ns).
            addr m' = addr m \<and> getProp m' ''_internalId'' = getProp m ''_internalId'')"
proof (induction ns arbitrary: ns' rule: forest_induct)
  case Nil
  then show ?case by simp
next
  case (Cons n ns)
  let ?K = "forestNodes (childrenOf n)"
  have e0: "addr ` set (forestNodes (n # ns)) =
      insert (addr n) (addr ` set ?K \<union> addr ` set (forestNodes ns))"
    by (simp add: forestNodes_Cons image_Un)
  from Cons.prems(1) have dn: "addr n \<notin> addr ` set ?K" "addr n \<notin> addr ` set (forestNodes ns)"
    and dk: "distinct (map addr ?K)" and dr: "distinct (map addr (forestNodes ns))"
    and dj: "addr ` set ?K \<inter> addr ` set (forestNodes ns) = {}"
    by (simp_all add: forestNodes_Cons)
  show ?case
  proof (cases "addr n = a")
    case True
    then have "ns' = ns" "t = n" using Cons.prems by (auto simp: removeFromNodes_Cons forestNodes_Cons)
    have es: "addr ` set (subtree n) = insert (addr n) (addr ` set ?K)"
      by (simp add: subtree_eq)
    have a1: "addr ` set (forestNodes ns) \<subseteq> addr ` set (forestNodes (n # ns)) - addr ` set (subtree n)"
      unfolding e0 es using dn dj by blast
    have a2: "\<forall>m' \<in> set (forestNodes ns). \<exists>m \<in> set (forestNodes (n # ns)).
            addr m' = addr m \<and> getProp m' ''_internalId'' = getProp m ''_internalId''"
      by (auto simp: forestNodes_Cons)
    from a1 a2 show ?thesis unfolding \<open>ns' = ns\<close> \<open>t = n\<close> by (rule conjI)
  next
    case False
    obtain cs rc where c: "removeFromNodes (childrenOf n) a = (cs, rc)" by fastforce
    show ?thesis
    proof (cases rc)
      case True
      then have ns': "ns' = setProp n ''children'' (JArr cs) # ns"
        using Cons.prems(2) False c by (simp add: removeFromNodes_Cons)
      from removeFromNodes_found [OF c] True obtain m where "m \<in> set ?K" "addr m = a" by blast
      then have "find (\<lambda>n. addr n = a) ?K \<noteq> None" by (auto simp: find_None_iff')
      then have ft: "find (\<lambda>n. addr n = a) ?K = Some t"
        using Cons.prems(3) False by (auto simp: forestNodes_Cons find_append)
      from c True have cT: "removeFromNodes (childrenOf n) a = (cs, True)" by simp
      from Cons.IH(1) [OF dk cT ft] have
        ih: "addr ` set (forestNodes cs) \<subseteq> addr ` set ?K - addr ` set (subtree t)"
        and ihc: "\<forall>m' \<in> set (forestNodes cs). \<exists>m \<in> set ?K.
            addr m' = addr m \<and> getProp m' ''_internalId'' = getProp m ''_internalId''"
        by simp_all
      have st: "set (subtree t) \<subseteq> set ?K"
        using forestNodes_subtree_closed find_Some_mem [OF ft] by blast
      have fn: "forestNodes ns' = setProp n ''children'' (JArr cs) # forestNodes cs @ forestNodes ns"
        by (simp add: ns' forestNodes_Cons)
      have e: "addr ` set (forestNodes ns') =
          insert (addr n) (addr ` set (forestNodes cs) \<union> addr ` set (forestNodes ns))"
        by (simp add: fn addr_setProp image_Un)
      have a1: "addr ` set (forestNodes ns') \<subseteq> addr ` set (forestNodes (n # ns)) - addr ` set (subtree t)"
        unfolding e e0 by (rule cut_inner [OF ih image_mono [OF st] dn(1) dj])
      have a2: "\<forall>m' \<in> set (forestNodes ns'). \<exists>m \<in> set (forestNodes (n # ns)).
            addr m' = addr m \<and> getProp m' ''_internalId'' = getProp m ''_internalId''"
      proof
        fix m' assume "m' \<in> set (forestNodes ns')"
        then consider "m' = setProp n ''children'' (JArr cs)" | "m' \<in> set (forestNodes cs)"
          | "m' \<in> set (forestNodes ns)" by (auto simp: fn)
        then show "\<exists>m \<in> set (forestNodes (n # ns)).
            addr m' = addr m \<and> getProp m' ''_internalId'' = getProp m ''_internalId''"
        proof cases
          case 1
          then have "addr m' = addr n \<and> getProp m' ''_internalId'' = getProp n ''_internalId''"
            by (simp add: addr_setProp getProp_setProp)
          then show ?thesis by (auto simp: forestNodes_Cons)
        next
          case 2
          with ihc obtain m where "m \<in> set ?K" "addr m' = addr m"
            "getProp m' ''_internalId'' = getProp m ''_internalId''" by blast
          then show ?thesis by (auto simp: forestNodes_Cons)
        next
          case 3
          then show ?thesis by (auto simp: forestNodes_Cons)
        qed
      qed
      from a1 a2 show ?thesis by (rule conjI)
    next
      case False
      note rcF = False
      obtain ns2 rr where rr: "removeFromNodes ns a = (ns2, rr)" by fastforce
      from Cons.prems(2) \<open>addr n \<noteq> a\<close> c rcF rr have ns': "ns' = n # ns2" and rrT: "rr"
        by (auto simp: removeFromNodes_Cons)
      from removeFromNodes_found [OF c] rcF have "find (\<lambda>n. addr n = a) ?K = None"
        by (auto simp: find_None_iff')
      then have ft: "find (\<lambda>n. addr n = a) (forestNodes ns) = Some t"
        using Cons.prems(3) \<open>addr n \<noteq> a\<close> by (auto simp: forestNodes_Cons find_append)
      from rr rrT have rT: "removeFromNodes ns a = (ns2, True)" by simp
      from Cons.IH(2) [OF dr rT ft] have
        ih: "addr ` set (forestNodes ns2) \<subseteq> addr ` set (forestNodes ns) - addr ` set (subtree t)"
        and ihc: "\<forall>m' \<in> set (forestNodes ns2). \<exists>m \<in> set (forestNodes ns).
            addr m' = addr m \<and> getProp m' ''_internalId'' = getProp m ''_internalId''"
        by simp_all
      have st: "set (subtree t) \<subseteq> set (forestNodes ns)"
        using forestNodes_subtree_closed find_Some_mem [OF ft] by blast
      have e: "addr ` set (forestNodes ns') =
          insert (addr n) (addr ` set ?K \<union> addr ` set (forestNodes ns2))"
        by (simp add: ns' forestNodes_Cons image_Un)
      have a1: "addr ` set (forestNodes ns') \<subseteq> addr ` set (forestNodes (n # ns)) - addr ` set (subtree t)"
        unfolding e e0 by (rule cut_outer [OF ih image_mono [OF st] dn(2) dj])
      have a2: "\<forall>m' \<in> set (forestNodes ns'). \<exists>m \<in> set (forestNodes (n # ns)).
            addr m' = addr m \<and> getProp m' ''_internalId'' = getProp m ''_internalId''"
      proof
        fix m' assume "m' \<in> set (forestNodes ns')"
        then consider "m' = n" | "m' \<in> set ?K" | "m' \<in> set (forestNodes ns2)"
          by (auto simp: ns' forestNodes_Cons)
        then show "\<exists>m \<in> set (forestNodes (n # ns)).
            addr m' = addr m \<and> getProp m' ''_internalId'' = getProp m ''_internalId''"
        proof cases
          case 1
          then show ?thesis by (auto simp: forestNodes_Cons)
        next
          case 2
          then show ?thesis by (auto simp: forestNodes_Cons)
        next
          case 3
          with ihc obtain m where "m \<in> set (forestNodes ns)" "addr m' = addr m"
            "getProp m' ''_internalId'' = getProp m ''_internalId''" by blast
          then show ?thesis by (auto simp: forestNodes_Cons)
        qed
      qed
      from a1 a2 show ?thesis by (rule conjI)
    qed
  qed
qed

text \<open>What \<^verbatim>\<open>cleanupNodeMappings\<close> leaves of a state when it returns.\<close>

lemma forEach_cleanup_aux:
  assumes "\<And>c tv tv'. c \<in> set cs \<Longrightarrow> f c tv = Inr tv' \<Longrightarrow>
     \<exists>ndm iim n2i. tv' = tv\<lparr>nodeDataMap := ndm, internalIdMap := iim, nodeToInternalIdMap := n2i,
                          selectedNodes := selectedNodes tv - K c,
                          expandedNodes := expandedNodes tv - K c\<rparr>"
    and "forEach f cs tv = Inr tv'"
  shows "\<exists>ndm iim n2i. tv' = tv\<lparr>nodeDataMap := ndm, internalIdMap := iim, nodeToInternalIdMap := n2i,
                          selectedNodes := selectedNodes tv - \<Union> (K ` set cs),
                          expandedNodes := expandedNodes tv - \<Union> (K ` set cs)\<rparr>"
  using assms
proof (induction cs arbitrary: tv)
  case Nil
  then have "tv' = tv" by simp
  then have "tv' = tv\<lparr>nodeDataMap := nodeDataMap tv, internalIdMap := internalIdMap tv,
                        nodeToInternalIdMap := nodeToInternalIdMap tv,
                        selectedNodes := selectedNodes tv - \<Union> (K ` set []),
                        expandedNodes := expandedNodes tv - \<Union> (K ` set [])\<rparr>" by simp
  then show ?case by blast
next
  case (Cons c cs)
  from Cons.prems(2) obtain tv1 where c1: "f c tv = Inr tv1" and r: "forEach f cs tv1 = Inr tv'"
    by (auto split: sum.splits)
  from Cons.prems(1) [OF _ c1] obtain ndm iim n2i where
    tv1: "tv1 = tv\<lparr>nodeDataMap := ndm, internalIdMap := iim, nodeToInternalIdMap := n2i,
                     selectedNodes := selectedNodes tv - K c,
                     expandedNodes := expandedNodes tv - K c\<rparr>" by auto
  have "\<And>c tv tv'. c \<in> set cs \<Longrightarrow> f c tv = Inr tv' \<Longrightarrow>
     \<exists>ndm iim n2i. tv' = tv\<lparr>nodeDataMap := ndm, internalIdMap := iim, nodeToInternalIdMap := n2i,
                          selectedNodes := selectedNodes tv - K c,
                          expandedNodes := expandedNodes tv - K c\<rparr>"
    using Cons.prems(1) by simp
  from Cons.IH [OF this r] obtain ndm' iim' n2i' where
    tv': "tv' = tv1\<lparr>nodeDataMap := ndm', internalIdMap := iim', nodeToInternalIdMap := n2i',
                     selectedNodes := selectedNodes tv1 - \<Union> (K ` set cs),
                     expandedNodes := expandedNodes tv1 - \<Union> (K ` set cs)\<rparr>" by blast
  have s: "selectedNodes tv - K c - \<Union> (K ` set cs) = selectedNodes tv - \<Union> (K ` set (c # cs))"
    "expandedNodes tv - K c - \<Union> (K ` set cs) = expandedNodes tv - \<Union> (K ` set (c # cs))"
    by auto
  have "tv' = tv\<lparr>nodeDataMap := ndm', internalIdMap := iim', nodeToInternalIdMap := n2i',
                     selectedNodes := selectedNodes tv - \<Union> (K ` set (c # cs)),
                     expandedNodes := expandedNodes tv - \<Union> (K ` set (c # cs))\<rparr>"
    unfolding tv' tv1 s [symmetric] by simp
  then show ?case by blast
qed

lemma cleanupNodeMappings_result:
  "cleanupNodeMappings n tv = Inr tv' \<Longrightarrow>
     \<exists>ndm iim n2i. tv' = tv\<lparr>nodeDataMap := ndm, internalIdMap := iim, nodeToInternalIdMap := n2i,
                          selectedNodes := selectedNodes tv - nodeIdOf ` set (subtree n),
                          expandedNodes := expandedNodes tv - nodeIdOf ` set (subtree n)\<rparr>"
proof (induction n arbitrary: tv tv' rule: subtree.induct)
  case (1 n)
  let ?k = "nodeIdOf n"
  let ?tv1 = "tv\<lparr>nodeDataMap := (nodeDataMap tv)(?k := None),
                  internalIdMap := (internalIdMap tv)(getProp n ''_internalId'' := None),
                  nodeToInternalIdMap := (nodeToInternalIdMap tv)(addr n := None),
                  selectedNodes := selectedNodes tv - {?k},
                  expandedNodes := expandedNodes tv - {?k}\<rparr>"
  show ?case
  proof (cases "hasChildren n")
    case False
    then have "childrenOf n = []" using no_children by simp
    then have k: "nodeIdOf ` set (subtree n) = {?k}" by (subst subtree.simps) simp
    from "1.prems" False have "tv' = ?tv1"
      by (subst (asm) cleanupNodeMappings.simps) (simp add: Let_def)
    then show ?thesis unfolding k by blast
  next
    case True
    from "1.prems" True obtain cs where ca: "childArray n = Inr cs"
      and fe: "forEach (\<lambda>child. cleanupNodeMappings child) cs ?tv1 = Inr tv'"
      by (subst (asm) cleanupNodeMappings.simps) (auto simp: Let_def split: sum.splits)
    from childArray_Inr [OF ca] have cs: "cs = childrenOf n" by simp
    have step: "\<And>c tv tv'. c \<in> set cs \<Longrightarrow> cleanupNodeMappings c tv = Inr tv' \<Longrightarrow>
       \<exists>ndm iim n2i. tv' = tv\<lparr>nodeDataMap := ndm, internalIdMap := iim, nodeToInternalIdMap := n2i,
                          selectedNodes := selectedNodes tv - nodeIdOf ` set (subtree c),
                          expandedNodes := expandedNodes tv - nodeIdOf ` set (subtree c)\<rparr>"
      using 1 cs by blast
    from forEach_cleanup_aux [of cs "\<lambda>child. cleanupNodeMappings child"
        "\<lambda>c. nodeIdOf ` set (subtree c)" ?tv1 tv', OF step fe]
    obtain ndm iim n2i where
      tv': "tv' = ?tv1\<lparr>nodeDataMap := ndm, internalIdMap := iim, nodeToInternalIdMap := n2i,
             selectedNodes := selectedNodes ?tv1 - (\<Union>c \<in> set cs. nodeIdOf ` set (subtree c)),
             expandedNodes := expandedNodes ?tv1 - (\<Union>c \<in> set cs. nodeIdOf ` set (subtree c))\<rparr>"
      by blast
    have k: "nodeIdOf ` set (subtree n) = insert ?k (\<Union>c \<in> set cs. nodeIdOf ` set (subtree c))"
      unfolding cs by (rule subtree_keys_unfold)
    have s: "selectedNodes tv - {?k} - (\<Union>c \<in> set cs. nodeIdOf ` set (subtree c))
               = selectedNodes tv - nodeIdOf ` set (subtree n)"
      "expandedNodes tv - {?k} - (\<Union>c \<in> set cs. nodeIdOf ` set (subtree c))
               = expandedNodes tv - nodeIdOf ` set (subtree n)"
      unfolding k by auto
    have "tv' = tv\<lparr>nodeDataMap := ndm, internalIdMap := iim, nodeToInternalIdMap := n2i,
             selectedNodes := selectedNodes tv - nodeIdOf ` set (subtree n),
             expandedNodes := expandedNodes tv - nodeIdOf ` set (subtree n)\<rparr>"
      unfolding tv' s [symmetric] by simp
    then show ?thesis by blast
  qed
qed


text \<open>No operation takes an id out of the set of issued ids.\<close>

lemma updateTreeContent_used:
  "updateTreeContent tv = Inr tv' \<Longrightarrow> usedInternalIds tv' = usedInternalIds tv"
  using updateTreeContent_frame [of tv tv'] by auto

lemma applyFilter_used:
  "applyFilter tv = Inr tv' \<Longrightarrow> usedInternalIds tv' = usedInternalIds tv"
  using applyFilter_frame [of tv tv'] by auto

lemma buildNodeDataMap_used:
  assumes "buildNodeDataMap tv = Inr tv'"
  shows "usedInternalIds tv \<subseteq> usedInternalIds tv'"
proof -
  from buildNodeDataMap_result [OF assms] obtain res tvm where
    m: "mapNodes (data tv) (tv\<lparr>nodeDataMap := Map.empty, internalIdMap := Map.empty,
                 nodeToInternalIdMap := Map.empty\<rparr>) = Inr (res, tvm)"
    and tv': "tv' = tvm\<lparr>data := res\<rparr>" by blast
  from mapNodes_frame [OF m] show ?thesis by (simp add: tv')
qed

lemma refreshTree_used:
  assumes "refreshTree tv = Inr tv'"
  shows "usedInternalIds tv \<subseteq> usedInternalIds tv'"
proof -
  from refreshTree_result [OF assms] obtain tv1 tv2 where
    f: "applyFilter tv = Inr tv1" and b: "buildNodeDataMap tv1 = Inr tv2"
    and u: "updateTreeContent tv2 = Inr tv'" by blast
  from applyFilter_used [OF f] buildNodeDataMap_used [OF b] updateTreeContent_used [OF u]
  show ?thesis by simp
qed

lemma navigate_used:
  assumes "navigate nav tv = Inr tv'"
  shows "usedInternalIds tv' = usedInternalIds tv"
proof (cases "navigationRefused nav tv")
  case True
  then show ?thesis using assms by (simp add: navigate_run)
next
  case False
  let ?tv1 = "case nav of
                SetPageSize k \<Rightarrow> tv\<lparr>pageSize := k, currentPage := 1\<rparr>
              | _ \<Rightarrow> tv\<lparr>currentPage := requestedPage nav tv\<rparr>"
  have u: "updateTreeContent ?tv1 = Inr tv'" using assms False by (simp add: navigate_run)
  have "usedInternalIds ?tv1 = usedInternalIds tv" by (cases nav) simp_all
  then show ?thesis using updateTreeContent_used [OF u] by simp
qed

lemma handleSearch_used:
  assumes "handleSearch query tv = Inr tv'"
  shows "usedInternalIds tv' = usedInternalIds tv"
proof -
  let ?tv0 = "tv\<lparr>searchTerm := toLowerCase query\<rparr>"
  from assms obtain tv1 where f: "applyFilter ?tv0 = Inr tv1"
    by (auto simp: handleSearch_def split: sum.splits)
  let ?tv2 = "tv1\<lparr>currentPage := 1\<rparr>"
  from assms f obtain tv3 where
    x: "(if searchTerm ?tv2 \<noteq> [] then autoExpandSearchResults ?tv2 else Inr ?tv2) = Inr tv3"
    and u: "updateTreeContent tv3 = Inr tv'"
    by (auto simp: handleSearch_def Let_def split: sum.splits)
  have "usedInternalIds tv3 = usedInternalIds ?tv2"
  proof (cases "searchTerm ?tv2 \<noteq> []")
    case True
    then have "autoExpandSearchResults ?tv2 = Inr tv3" using x by simp
    from autoExpand_frame [OF this] show ?thesis by auto
  next
    case False
    then show ?thesis using x by simp
  qed
  then show ?thesis using applyFilter_used [OF f] updateTreeContent_used [OF u] by simp
qed

lemma toggleSelection_used:
  assumes "toggleSelection k n tv = Inr tv'"
  shows "usedInternalIds tv' = usedInternalIds tv"
proof (cases "list_all arrayChildren (subtree n)")
  case True
  then show ?thesis using assms
    by (cases "k \<in> selectedNodes tv") (auto simp: toggleSelection_def select_sub deselect_sub)
next
  case False
  then show ?thesis using assms
    by (cases "k \<in> selectedNodes tv") (simp_all add: toggleSelection_def select_sub deselect_sub)
qed

lemma updateData_used:
  assumes "updateData newData tv = Inr tv'"
  shows "usedInternalIds tv \<subseteq> usedInternalIds tv'"
proof -
  from assms obtain tv1 where
    b: "buildNodeDataMap (tv\<lparr>data := newData, filteredData := None, currentPage := 1\<rparr>) = Inr tv1"
    and u: "updateTreeContent tv1 = Inr tv'"
    by (auto simp: updateData_def split: sum.splits)
  from buildNodeDataMap_used [OF b] updateTreeContent_used [OF u] show ?thesis by simp
qed

lemma generateInternalId_used:
  assumes "generateInternalId tv = Inr (x, tv1)"
  shows "usedInternalIds tv1 = insert x (usedInternalIds tv)"
proof -
  note e = generateInternalId_result [OF assms, THEN conjunct2, THEN conjunct2, THEN conjunct2]
  from arg_cong [OF e, of usedInternalIds] show ?thesis by simp
qed

lemma addNode_used:
  assumes "addNode p d pos tv = Inr (r, tv')"
  shows "usedInternalIds tv \<subseteq> usedInternalIds tv'"
proof (cases d)
  case None
  then show ?thesis using assms by (simp add: addNode_def)
next
  case (Some ups)
  from assms Some obtain x tv1 where
    g: "generateInternalId (tv\<lparr>nextAddr := Suc (nextAddr tv)\<rparr>) = Inr (x, tv1)"
    by (auto simp: addNode_def split: sum.splits)
  from generateInternalId_used [OF g] have u1: "usedInternalIds tv \<subseteq> usedInternalIds tv1"
    by auto
  let ?new = "setProp (Node (nextAddr tv) ups) ''_internalId'' x"
  show ?thesis
  proof (cases "isRootSentinel p")
    case True
    then have f: "refreshTree (addToRootLevel ?new pos tv1) = Inr tv'"
      using assms Some g by (auto simp: addNode_def Let_def split: sum.splits)
    have "usedInternalIds (addToRootLevel ?new pos tv1) = usedInternalIds tv1"
      by (simp add: addToRootLevel_def)
    then show ?thesis using refreshTree_used [OF f] u1 by simp
  next
    case False
    note nr = False
    show ?thesis
    proof (cases "internalIdMap tv1 p")
      case None
      then have "tv' = tv1" using assms Some g nr by (simp add: addNode_def Let_def)
      then show ?thesis using u1 by simp
    next
      case (Some a)
      note sa = Some
      show ?thesis
      proof (cases "findNode a (data tv1)")
        case None
        then have f: "refreshTree tv1 = Inr tv'"
          using assms \<open>d = Some ups\<close> g nr sa
          by (auto simp: addNode_def Let_def split: sum.splits)
        show ?thesis using refreshTree_used [OF f] u1 by simp
      next
        case (Some parent)
        then obtain parent' where
          f: "refreshTree (tv1\<lparr>data := updateAt a (\<lambda>p. parent') (data tv1)\<rparr>) = Inr tv'"
          using assms \<open>d = Some ups\<close> g nr sa
          by (auto simp: addNode_def Let_def split: sum.splits)
        show ?thesis using refreshTree_used [OF f] u1 by simp
      qed
    qed
  qed
qed

lemma removeNode_run:
  assumes "removeNodeByInternalId x tv = Inr (r, tv')"
  shows "(\<not> r \<and> tv' = tv)
       \<or> (\<exists>a target ns tv0. r \<and> truthy x \<and> internalIdMap tv x = Some a
             \<and> findNode a (data tv) = Some target
             \<and> removeFromNodes (data tv) a = (ns, True)
             \<and> cleanupNodeMappings target (tv\<lparr>data := ns\<rparr>) = Inr tv0
             \<and> refreshTree tv0 = Inr tv')"
proof (cases "truthy x")
  case False
  then show ?thesis using assms by (simp add: removeNodeByInternalId_def)
next
  case True
  note tx = True
  show ?thesis
  proof (cases "internalIdMap tv x")
    case None
    then show ?thesis using assms tx by (simp add: removeNodeByInternalId_def)
  next
    case (Some a)
    note sa = Some
    show ?thesis
    proof (cases "findNode a (data tv)")
      case None
      then show ?thesis using assms tx sa by (simp add: removeNodeByInternalId_def)
    next
      case (Some target)
      obtain ns removed where rm: "removeFromNodes (data tv) a = (ns, removed)" by fastforce
      show ?thesis
      proof (cases removed)
        case False
        then show ?thesis using assms tx sa Some rm by (simp add: removeNodeByInternalId_def)
      next
        case True
        from assms tx sa Some rm True obtain tv0 where
          c: "cleanupNodeMappings target (tv\<lparr>data := ns\<rparr>) = Inr tv0"
          by (auto simp: removeNodeByInternalId_def split: sum.splits)
        from assms tx sa Some rm True c have f: "refreshTree tv0 = Inr tv'" and r: r
          by (auto simp: removeNodeByInternalId_def refreshTree_def split: sum.splits)
        have "\<exists>a target ns tv0. r \<and> truthy x \<and> internalIdMap tv x = Some a
             \<and> findNode a (data tv) = Some target
             \<and> removeFromNodes (data tv) a = (ns, True)
             \<and> cleanupNodeMappings target (tv\<lparr>data := ns\<rparr>) = Inr tv0
             \<and> refreshTree tv0 = Inr tv'"
          using r tx sa Some rm True c f
          by (intro exI [of _ a] exI [of _ target] exI [of _ ns] exI [of _ tv0]) simp
        then show ?thesis by (rule disjI2)
      qed
    qed
  qed
qed

lemma removeNode_used:
  assumes "removeNodeByInternalId x tv = Inr (r, tv')"
  shows "usedInternalIds tv \<subseteq> usedInternalIds tv'"
  using removeNode_run [OF assms]
proof
  assume "\<not> r \<and> tv' = tv" then show ?thesis by simp
next
  assume "\<exists>a target ns tv0. r \<and> truthy x \<and> internalIdMap tv x = Some a
             \<and> findNode a (data tv) = Some target
             \<and> removeFromNodes (data tv) a = (ns, True)
             \<and> cleanupNodeMappings target (tv\<lparr>data := ns\<rparr>) = Inr tv0
             \<and> refreshTree tv0 = Inr tv'"
  then obtain target ns tv0 where c: "cleanupNodeMappings target (tv\<lparr>data := ns\<rparr>) = Inr tv0"
    and f: "refreshTree tv0 = Inr tv'" by blast
  from cleanupNodeMappings_result [OF c] have "usedInternalIds tv0 = usedInternalIds tv" by auto
  then show ?thesis using refreshTree_used [OF f] by simp
qed

lemma updateNode_used:
  assumes "updateNodeByInternalId x d tv = Inr (r, tv')"
  shows "usedInternalIds tv' = usedInternalIds tv"
proof (cases "\<not> truthy x \<or> d = None \<or> internalIdMap tv x = None")
  case True
  then have "tv' = tv" using assms
    by (auto simp: updateNodeByInternalId_def split: option.splits)
  then show ?thesis by simp
next
  case False
  then obtain ups a where d: "d = Some ups" and a: "internalIdMap tv x = Some a" and t: "truthy x"
    by auto
  from assms d a t obtain tv1 where
    f: "applyFilter (tv\<lparr>data := updateAt a (mergeUpdate ups) (data tv)\<rparr>) = Inr tv1"
    and u: "updateTreeContent tv1 = Inr tv'"
    by (auto simp: updateNodeByInternalId_def split: sum.splits)
  from applyFilter_used [OF f] updateTreeContent_used [OF u] show ?thesis by simp
qed

lemma perform_used:
  "perform operation tv = Inr tv' \<Longrightarrow> usedInternalIds tv \<subseteq> usedInternalIds tv'"
proof (cases operation)
  case (Navigate nav)
  assume "perform operation tv = Inr tv'"
  then show ?thesis using Navigate navigate_used [of nav tv tv'] by simp
next
  case (Search q)
  assume "perform operation tv = Inr tv'"
  then show ?thesis using Search handleSearch_used [of q tv tv'] by simp
next
  case (Toggle k n)
  assume "perform operation tv = Inr tv'"
  then show ?thesis using Toggle toggleSelection_used [of k n tv tv'] by simp
next
  case (UpdateData d)
  assume "perform operation tv = Inr tv'"
  then show ?thesis using UpdateData updateData_used [of d tv tv'] by simp
next
  case RefreshTree
  assume "perform operation tv = Inr tv'"
  then show ?thesis using RefreshTree refreshTree_used [of tv tv'] by simp
next
  case (AddNode p d pos)
  assume "perform operation tv = Inr tv'"
  then show ?thesis using AddNode addNode_used [of p d pos tv _ tv']
    by (auto split: sum.splits)
next
  case (RemoveNode x)
  assume "perform operation tv = Inr tv'"
  then show ?thesis using RemoveNode removeNode_used [of x tv _ tv']
    by (auto split: sum.splits)
next
  case (UpdateNode x d)
  assume "perform operation tv = Inr tv'"
  then show ?thesis using UpdateNode updateNode_used [of x d tv _ tv']
    by (auto split: sum.splits)
qed

lemma performAll_used:
  "performAll ops tv = Inr tv' \<Longrightarrow> usedInternalIds tv \<subseteq> usedInternalIds tv'"
  unfolding performAll_def
proof (induction ops arbitrary: tv)
  case Nil
  then show ?case by simp
next
  case (Cons operation ops)
  from Cons.prems obtain tv1 where p: "perform operation tv = Inr tv1"
    and r: "forEach perform ops tv1 = Inr tv'" by (auto split: sum.splits)
  from perform_used [OF p] Cons.IH [OF r] show ?case by simp
qed


lemma removeNode_found_run:
  assumes t: "truthy x" and i: "internalIdMap tv x = Some a"
      and f: "findNode a (data tv) = Some target"
      and run: "removeNodeByInternalId x tv = Inr (r, tv')"
  shows "r \<and> (\<exists>ns tv0. removeFromNodes (data tv) a = (ns, True)
               \<and> cleanupNodeMappings target (tv\<lparr>data := ns\<rparr>) = Inr tv0
               \<and> refreshTree tv0 = Inr tv')"
proof -
  obtain ns removed where rm: "removeFromNodes (data tv) a = (ns, removed)" by fastforce
  from f have "target \<in> set (forestNodes (data tv))" "addr target = a"
    using find_Some_mem [of "\<lambda>n. addr n = a" "forestNodes (data tv)" target]
    by (simp_all add: findNode_def)
  then have removed using removeFromNodes_found [OF rm] by blast
  with rm have rm': "removeFromNodes (data tv) a = (ns, True)" by simp
  from run t i f rm' obtain tv0 where
    c: "cleanupNodeMappings target (tv\<lparr>data := ns\<rparr>) = Inr tv0"
    by (auto simp: removeNodeByInternalId_def split: sum.splits)
  from run t i f rm' c have "refreshTree tv0 = Inr tv'" and r
    by (auto simp: removeNodeByInternalId_def refreshTree_def split: sum.splits)
  then show ?thesis using rm' c by blast
qed

text \<open>
  Claim C3. A node of the forest that is found through the internal-id index is removed by
  its internal id. When the remove completes it reports success, and for the node and each
  of its descendants: no index holds a reference to it (the natural-key index and the
  internal-id index do not have it as a value, the node-to-internal-id index has no entry
  for it), the selection and the expanded markers do not hold its natural key, and the
  forest does not hold it. The internal id stays in the set of issued ids, so that after any
  sequence of operations the allocator returns a different id; and when no other node
  carries that internal id, the internal-id index has no entry under it. The nodes of the
  forest are distinct objects, and the internal id is an issued one, as it is for every node
  that was inserted.
\<close>

theorem removed_node_leaves_no_trace:
  assumes d: "distinct (map addr (forestNodes (data tv)))"
      and t: "truthy internalId"
      and u: "internalId \<in> usedInternalIds tv"
      and i: "internalIdMap tv internalId = Some a"
      and f: "findNode a (data tv) = Some target"
      and run: "removeNodeByInternalId internalId tv = Inr (removed, tv')"
  shows "removed
       \<and> (\<forall>m \<in> set (subtree target).
              addr m \<notin> ran (nodeDataMap tv') \<and> addr m \<notin> ran (internalIdMap tv')
            \<and> nodeToInternalIdMap tv' (addr m) = None
            \<and> nodeIdOf m \<notin> selectedNodes tv' \<and> nodeIdOf m \<notin> expandedNodes tv'
            \<and> addr m \<notin> addr ` set (forestNodes (data tv')))
       \<and> internalId \<in> usedInternalIds tv'
       \<and> (\<forall>ops tv'' x tv3.
              performAll ops tv' = Inr tv'' \<and> generateInternalId tv'' = Inr (x, tv3)
              \<longrightarrow> x \<noteq> internalId)
       \<and> ((\<forall>m \<in> set (forestNodes (data tv)).
               getProp m ''_internalId'' = internalId \<longrightarrow> addr m = a)
            \<longrightarrow> internalIdMap tv' internalId = None)"
proof -
  from removeNode_found_run [OF t i f run] obtain ns tv0 where
    r: removed and rm: "removeFromNodes (data tv) a = (ns, True)"
    and c: "cleanupNodeMappings target (tv\<lparr>data := ns\<rparr>) = Inr tv0"
    and rf: "refreshTree tv0 = Inr tv'" by blast
  from f have ft: "find (\<lambda>n. addr n = a) (forestNodes (data tv)) = Some target"
    by (simp add: findNode_def)
  from removeFromNodes_addrs [OF d rm ft] have
    cut: "addr ` set (forestNodes ns) \<subseteq> addr ` set (forestNodes (data tv)) - addr ` set (subtree target)"
    and same: "\<forall>m' \<in> set (forestNodes ns). \<exists>m \<in> set (forestNodes (data tv)).
            addr m' = addr m \<and> getProp m' ''_internalId'' = getProp m ''_internalId''"
    by simp_all
  let ?K = "nodeIdOf ` set (subtree target)"
  from cleanupNodeMappings_result [OF c] obtain ndm iim n2i where
    tv0: "tv0 = tv\<lparr>data := ns, nodeDataMap := ndm, internalIdMap := iim,
                    nodeToInternalIdMap := n2i,
                    selectedNodes := selectedNodes tv - ?K,
                    expandedNodes := expandedNodes tv - ?K\<rparr>"
    by auto
  from refreshTree_build [OF rf] obtain res tvm fd h where
    m: "mapNodes (data tv0) (tv0\<lparr>filteredData := fd, nextAddr := h, nodeDataMap := Map.empty,
                 internalIdMap := Map.empty, nodeToInternalIdMap := Map.empty\<rparr>) = Inr (res, tvm)"
    and dt: "data tv' = res" and m1: "nodeDataMap tv' = nodeDataMap tvm"
    and m2: "internalIdMap tv' = internalIdMap tvm"
    and m3: "nodeToInternalIdMap tv' = nodeToInternalIdMap tvm"
    and us: "usedInternalIds tv' = usedInternalIds tvm"
    and se: "selectedNodes tv' = selectedNodes tv0" and ex: "expandedNodes tv' = expandedNodes tv0"
    by blast
  let ?start = "tv0\<lparr>filteredData := fd, nextAddr := h, nodeDataMap := Map.empty,
                 internalIdMap := Map.empty, nodeToInternalIdMap := Map.empty\<rparr>"
  have d0: "data tv0 = ns" by (simp add: tv0)
  note m' = m [unfolded d0]
  from mapNodes_ranges [OF m'] have
    rg: "ran (nodeDataMap tvm) \<subseteq> addr ` set (forestNodes ns)"
        "ran (internalIdMap tvm) \<subseteq> addr ` set (forestNodes ns)"
        "dom (nodeToInternalIdMap tvm) \<subseteq> addr ` set (forestNodes ns)"
    by simp_all
  from mapNodes_frame [OF m'] have
    um: "usedInternalIds ?start \<subseteq> usedInternalIds tvm"
    and fa: "map addr (forestNodes res) = map addr (forestNodes ns)" by simp_all
  have fa': "addr ` set (forestNodes res) = addr ` set (forestNodes ns)"
    using arg_cong [OF fa, of set] by simp
  have u': "internalId \<in> usedInternalIds tv'"
    using um u by (auto simp: us tv0)
  have a: "\<forall>m \<in> set (subtree target).
              addr m \<notin> ran (nodeDataMap tv') \<and> addr m \<notin> ran (internalIdMap tv')
            \<and> nodeToInternalIdMap tv' (addr m) = None
            \<and> nodeIdOf m \<notin> selectedNodes tv' \<and> nodeIdOf m \<notin> expandedNodes tv'
            \<and> addr m \<notin> addr ` set (forestNodes (data tv'))"
  proof
    fix m assume mt: "m \<in> set (subtree target)"
    then have out: "addr m \<notin> addr ` set (forestNodes ns)" using cut by blast
    have k: "nodeIdOf m \<in> ?K" using mt by simp
    have 1: "addr m \<notin> ran (nodeDataMap tv')" using out rg(1) by (auto simp: m1)
    have 2: "addr m \<notin> ran (internalIdMap tv')" using out rg(2) by (auto simp: m2)
    have 3: "nodeToInternalIdMap tv' (addr m) = None" using out rg(3) by (auto simp: m3)
    have 4: "nodeIdOf m \<notin> selectedNodes tv'" using k by (simp add: se tv0)
    have 5: "nodeIdOf m \<notin> expandedNodes tv'" using k by (simp add: ex tv0)
    have 6: "addr m \<notin> addr ` set (forestNodes (data tv'))" using out by (simp add: dt fa')
    show "addr m \<notin> ran (nodeDataMap tv') \<and> addr m \<notin> ran (internalIdMap tv')
            \<and> nodeToInternalIdMap tv' (addr m) = None
            \<and> nodeIdOf m \<notin> selectedNodes tv' \<and> nodeIdOf m \<notin> expandedNodes tv'
            \<and> addr m \<notin> addr ` set (forestNodes (data tv'))"
      by (intro conjI) (rule 1, rule 2, rule 3, rule 4, rule 5, rule 6)
  qed
  have b: "\<forall>ops tv'' x tv3.
              performAll ops tv' = Inr tv'' \<and> generateInternalId tv'' = Inr (x, tv3)
              \<longrightarrow> x \<noteq> internalId"
  proof (intro allI impI)
    fix ops tv'' x tv3
    assume p: "performAll ops tv' = Inr tv'' \<and> generateInternalId tv'' = Inr (x, tv3)"
    from performAll_used [OF p [THEN conjunct1]] u' have "internalId \<in> usedInternalIds tv''"
      by blast
    moreover from generateInternalId_result [OF p [THEN conjunct2]]
    have "x \<notin> usedInternalIds tv''" by simp
    ultimately show "x \<noteq> internalId" by blast
  qed
  have e: "internalIdMap tv' internalId = None"
    if only: "\<forall>m \<in> set (forestNodes (data tv)).
               getProp m ''_internalId'' = internalId \<longrightarrow> addr m = a"
  proof -
    have at: "a \<in> addr ` set (subtree target)"
    proof -
      from find_Some_mem [OF ft] have "addr target = a" by simp
      moreover have "target \<in> set (subtree target)" by (subst subtree.simps) simp
      ultimately show ?thesis by blast
    qed
    have none: "\<forall>m \<in> set (forestNodes ns). getProp m ''_internalId'' \<noteq> internalId"
    proof
      fix m' assume m': "m' \<in> set (forestNodes ns)"
      from same m' obtain m0 where m0: "m0 \<in> set (forestNodes (data tv))"
        "addr m' = addr m0" "getProp m' ''_internalId'' = getProp m0 ''_internalId''" by blast
      show "getProp m' ''_internalId'' \<noteq> internalId"
      proof
        assume "getProp m' ''_internalId'' = internalId"
        then have "addr m0 = a" using only m0 by simp
        then have "addr m' \<in> addr ` set (subtree target)" using at m0(2) by simp
        moreover have "addr m' \<in> addr ` set (forestNodes ns)" using m' by blast
        ultimately show False using cut by blast
      qed
    qed
    have s: "internalIdMap ?start internalId = None \<and> internalId \<in> usedInternalIds ?start"
      using u by (simp add: tv0)
    from mapNodes_absent [OF m', THEN spec, of internalId] s none
    have "internalIdMap tvm internalId = None" by blast
    then show ?thesis by (simp add: m2)
  qed
  show ?thesis
  proof (intro conjI impI)
    show removed by (rule r)
    show "\<forall>m \<in> set (subtree target).
              addr m \<notin> ran (nodeDataMap tv') \<and> addr m \<notin> ran (internalIdMap tv')
            \<and> nodeToInternalIdMap tv' (addr m) = None
            \<and> nodeIdOf m \<notin> selectedNodes tv' \<and> nodeIdOf m \<notin> expandedNodes tv'
            \<and> addr m \<notin> addr ` set (forestNodes (data tv'))" by (rule a)
    show "internalId \<in> usedInternalIds tv'" by (rule u')
    show "\<forall>ops tv'' x tv3.
              performAll ops tv' = Inr tv'' \<and> generateInternalId tv'' = Inr (x, tv3)
              \<longrightarrow> x \<noteq> internalId" by (rule b)
  next
    assume "\<forall>m \<in> set (forestNodes (data tv)).
               getProp m ''_internalId'' = internalId \<longrightarrow> addr m = a"
    then show "internalIdMap tv' internalId = None" by (rule e)
  qed
qed

lemma exampleAdded_eval:
  "(case addNode (JNum 0) (Some [(''name'', JStr ''X'')]) ''first'' exampleBuilt of
      Inl e \<Rightarrow> False
    | Inr (r, tv) \<Rightarrow>
        r = Some (JStr ''3_1700000000000_k3j2h1g0f'')
      \<and> data tv = [addedNode, builtRoot] \<and> searchTerm tv = [] \<and> pageSize tv = 10
      \<and> showPagination tv \<and> filteredData tv = None \<and> currentPage tv = 1
      \<and> internalIdMap tv (JStr ''3_1700000000000_k3j2h1g0f'') = Some 200
      \<and> nodeToInternalIdMap tv 200 = Some (JStr ''3_1700000000000_k3j2h1g0f'')
      \<and> nodeDataMap tv (JStr ''node_nameXinter'') = Some 200
      \<and> JStr ''3_1700000000000_k3j2h1g0f'' \<in> usedInternalIds tv
      \<and> selectedNodes tv = {} \<and> expandedNodes tv = {} \<and> displayField tv = ''name'')"
  by (simp add: exampleBuilt_fields addNode_def exampleBuilt_generate' isRootSentinel_def addToRootLevel_def
        refreshTree_def applyFilter_def filterNodes.simps buildNodeDataMap_def mapNodes.simps
        claimInternalId_def indexNode_def nodeIdOf_def generateNodeId_def getProp_def setProp_def
        isArrayIndex_def isDigit_def childrenOf_def hasChildren_def childArray_def
        updateTreeContent_def getPaginatedData_def
        calculatePagination_def filteredView_def jsSlice_def ceilDiv_def Let_def
        builtRoot_def builtChild_def addedNode_def quoteJSON_def escapeChar_def isAlnum_def)

lemma exampleAdded_facts:
  "addNode (JNum 0) (Some [(''name'', JStr ''X'')]) ''first'' exampleBuilt
     = Inr (Some (JStr ''3_1700000000000_k3j2h1g0f''), exampleAdded)"
  "data exampleAdded = [addedNode, builtRoot]" "searchTerm exampleAdded = []"
  "pageSize exampleAdded = 10" "showPagination exampleAdded" "filteredData exampleAdded = None"
  "currentPage exampleAdded = 1"
  "internalIdMap exampleAdded (JStr ''3_1700000000000_k3j2h1g0f'') = Some 200"
  "nodeToInternalIdMap exampleAdded 200 = Some (JStr ''3_1700000000000_k3j2h1g0f'')"
  "nodeDataMap exampleAdded (JStr ''node_nameXinter'') = Some 200"
  "JStr ''3_1700000000000_k3j2h1g0f'' \<in> usedInternalIds exampleAdded"
  "selectedNodes exampleAdded = {}" "expandedNodes exampleAdded = {}"
  "displayField exampleAdded = ''name''"
  using exampleAdded_eval
  by (cases "addNode (JNum 0) (Some [(''name'', JStr ''X'')]) ''first'' exampleBuilt";
      simp add: exampleAdded_def split: prod.splits)+

lemma exampleAdded_remove:
  "(case removeNodeByInternalId (JStr ''3_1700000000000_k3j2h1g0f'') exampleAdded of
      Inl e \<Rightarrow> False
    | Inr (removed, tv) \<Rightarrow> removed \<and> data tv = [builtRoot])"
  by (simp add: exampleAdded_facts removeNodeByInternalId_def findNode_def forestNodes_def
        subtree.simps removeFromNodes.simps cleanupNodeMappings.simps
        applyFilter_def filterNodes.simps buildNodeDataMap_def mapNodes.simps
        claimInternalId_def indexNode_def nodeIdOf_def generateNodeId_def getProp_def setProp_def
        isArrayIndex_def isDigit_def childrenOf_def hasChildren_def childArray_def
        updateTreeContent_def getPaginatedData_def
        calculatePagination_def filteredView_def jsSlice_def ceilDiv_def Let_def
        builtRoot_def builtChild_def addedNode_def quoteJSON_def escapeChar_def isAlnum_def)


theorem removed_node_leaves_no_trace_witness:
  "\<exists>tv'.
      addNode (JNum 0) (Some [(''name'', JStr ''X'')]) ''first'' exampleBuilt
        = Inr (Some (JStr ''3_1700000000000_k3j2h1g0f''), exampleAdded)
    \<and> distinct (map addr (forestNodes (data exampleAdded)))
    \<and> truthy (JStr ''3_1700000000000_k3j2h1g0f'')
    \<and> JStr ''3_1700000000000_k3j2h1g0f'' \<in> usedInternalIds exampleAdded
    \<and> internalIdMap exampleAdded (JStr ''3_1700000000000_k3j2h1g0f'') = Some 200
    \<and> findNode 200 (data exampleAdded) = Some addedNode
    \<and> nodeDataMap exampleAdded (nodeIdOf addedNode) = Some 200
    \<and> removeNodeByInternalId (JStr ''3_1700000000000_k3j2h1g0f'') exampleAdded = Inr (True, tv')
    \<and> 200 \<notin> ran (nodeDataMap tv') \<and> 200 \<notin> ran (internalIdMap tv')
    \<and> nodeToInternalIdMap tv' 200 = None
    \<and> nodeIdOf addedNode \<notin> selectedNodes tv' \<and> nodeIdOf addedNode \<notin> expandedNodes tv'
    \<and> 200 \<notin> addr ` set (forestNodes (data tv'))
    \<and> JStr ''3_1700000000000_k3j2h1g0f'' \<in> usedInternalIds tv'
    \<and> internalIdMap tv' (JStr ''3_1700000000000_k3j2h1g0f'') = None"
proof -
  let ?x = "JStr ''3_1700000000000_k3j2h1g0f''"
  note fa = exampleAdded_facts
  have fn: "forestNodes (data exampleAdded) = [addedNode, builtRoot, builtChild]"
  proof -
    have "childrenOf addedNode = []" by (simp add: addedNode_def childrenOf_def getProp_def)
    then show ?thesis
      using forestNodes_built by (simp add: fa(2) forestNodes_Cons)
  qed
  have ad: "addr addedNode = 200" by (simp add: addedNode_def)
  have d: "distinct (map addr (forestNodes (data exampleAdded)))"
    by (simp add: fn ad)
  have t: "truthy ?x" by simp
  have f: "findNode 200 (data exampleAdded) = Some addedNode"
    by (simp add: findNode_def fn ad)
  have k: "nodeIdOf addedNode = JStr ''node_nameXinter''"
    by (simp add: addedNode_def nodeIdOf_def generateNodeId_def getProp_def quoteJSON_def
          escapeChar_def isAlnum_def)
  have st: "subtree addedNode = [addedNode]"
    by (subst subtree.simps) (simp add: addedNode_def childrenOf_def getProp_def)
  obtain r tv' where run: "removeNodeByInternalId ?x exampleAdded = Inr (r, tv')"
  proof (cases "removeNodeByInternalId ?x exampleAdded")
    case (Inl e)
    with exampleAdded_remove show ?thesis by simp
  next
    case (Inr b)
    then show ?thesis using that by (cases b) simp
  qed
  note th = removed_node_leaves_no_trace [OF d t fa(11) fa(8) f run]
  have r: r by (rule th [THEN conjunct1])
  have m: "addedNode \<in> set (subtree addedNode)" by (simp add: st)
  note tm = th [THEN conjunct2, THEN conjunct1, THEN bspec, OF m]
  have u: "?x \<in> usedInternalIds tv'"
    by (rule th [THEN conjunct2, THEN conjunct2, THEN conjunct1])
  have only: "\<forall>m \<in> set (forestNodes (data exampleAdded)).
               getProp m ''_internalId'' = ?x \<longrightarrow> addr m = 200"
    by (simp add: fn ad) (simp add: builtRoot_def builtChild_def getProp_def)
  have e: "internalIdMap tv' ?x = None"
    by (rule th [THEN conjunct2, THEN conjunct2, THEN conjunct2, THEN conjunct2, THEN mp, OF only])
  have run': "removeNodeByInternalId ?x exampleAdded = Inr (True, tv')" using run r by simp
  show ?thesis
    by (intro exI [of _ tv'] conjI)
       (rule fa(1), rule d, rule t, rule fa(11), rule fa(8), rule f,
        simp add: k fa(10), rule run',
        rule tm [unfolded ad, THEN conjunct1],
        rule tm [unfolded ad, THEN conjunct2, THEN conjunct1],
        rule tm [unfolded ad, THEN conjunct2, THEN conjunct2, THEN conjunct1],
        rule tm [THEN conjunct2, THEN conjunct2, THEN conjunct2, THEN conjunct1],
        rule tm [THEN conjunct2, THEN conjunct2, THEN conjunct2, THEN conjunct2, THEN conjunct1],
        rule tm [unfolded ad, THEN conjunct2, THEN conjunct2, THEN conjunct2, THEN conjunct2,
                 THEN conjunct2],
        rule u, rule e)
qed

end
